theory Spec2Isabelle
  imports Main
begin

section \<open>Characters and strings\<close>

text \<open>
  A JavaScript string is modelled as a \<^typ>\<open>string\<close> (a list of characters), an index
  into it as a \<^typ>\<open>nat\<close>. The three characters the program singles out get names.
\<close>

abbreviation BSL :: char where "BSL \<equiv> CHR 0x5C"
abbreviation DQ :: char where "DQ \<equiv> CHR 0x22"
abbreviation LF :: char where "LF \<equiv> CHR 0x0A"

text \<open>\<^verbatim>\<open>text.substring(a, b)\<close> for \<open>a \<le> b\<close>: the characters at indices \<open>a, ..., b - 1\<close>,
  cut at the end of the string. For \<open>a > b\<close> JavaScript swaps the arguments.\<close>

definition substring :: "string \<Rightarrow> nat \<Rightarrow> nat \<Rightarrow> string" where
  "substring s a b = (if a \<le> b then take (b - a) (drop a s) else take (a - b) (drop b s))"

section \<open>The editor's document model (vscode.Position, vscode.TextDocument)\<close>

text \<open>
  \<^verbatim>\<open>vscode.Position\<close> is a pair of a zero-based line and a zero-based character; its
  comparisons are lexicographic.
\<close>

datatype Position = Position (line: nat) (character: nat)

definition isBefore :: "Position \<Rightarrow> Position \<Rightarrow> bool" where
  "isBefore p q \<longleftrightarrow> line p < line q \<or> (line p = line q \<and> character p < character q)"

definition isAfterOrEqual :: "Position \<Rightarrow> Position \<Rightarrow> bool" where
  "isAfterOrEqual p q \<longleftrightarrow> \<not> isBefore p q"

definition isAfter :: "Position \<Rightarrow> Position \<Rightarrow> bool" where
  "isAfter p q \<longleftrightarrow> isBefore q p"

text \<open>
  A \<^verbatim>\<open>vscode.Range\<close>; its constructor orders the two ends. \<^verbatim>\<open>intersection\<close> is the range
  from the later start to the earlier end, and is undefined only when that start lies
  after that end, so two ranges that touch do intersect.
\<close>

datatype Range = Range (range_start: Position) (range_end: Position)

definition newRange :: "Position \<Rightarrow> Position \<Rightarrow> Range" where
  "newRange a b = (if isBefore b a then Range b a else Range a b)"

definition intersection :: "Range \<Rightarrow> Range \<Rightarrow> Range option" where
  "intersection r other =
     (let s = (if isBefore (range_start other) (range_start r) then range_start r
               else range_start other);
          e = (if isBefore (range_end r) (range_end other) then range_end r
               else range_end other)
      in if isAfter s e then None else Some (Range s e))"

text \<open>
  A \<^verbatim>\<open>vscode.TextDocument\<close> is its text, its language id, its uri and its version. The
  text has line feeds as its line terminators. \<^verbatim>\<open>positionAt\<close> clamps the offset to the
  text and counts the line feeds before it; \<^verbatim>\<open>offsetAt\<close> clamps the position to the
  document (a line past the last one is the end of the text, a character past the end of
  its line is the end of that line).
\<close>

record TextDocument =
  getText :: string
  languageId :: string
  uri :: string
  version :: nat

definition positionAt :: "TextDocument \<Rightarrow> nat \<Rightarrow> Position" where
  "positionAt document offset =
     (let prefix = take offset (getText document)
      in Position (length (filter (\<lambda>c. c = LF) prefix))
                  (length (takeWhile (\<lambda>c. c \<noteq> LF) (rev prefix))))"

fun splitLines :: "string \<Rightarrow> string list" where
  "splitLines [] = [[]]"
| "splitLines (c # cs) =
     (if c = LF then [] # splitLines cs
      else (case splitLines cs of l # ls \<Rightarrow> (c # l) # ls | [] \<Rightarrow> [[c]]))"

definition offsetAt :: "TextDocument \<Rightarrow> Position \<Rightarrow> nat" where
  "offsetAt document p =
     (let ls = splitLines (getText document)
      in if line p \<ge> length ls then length (getText document)
         else sum_list (map (\<lambda>l. length l + 1) (take (line p) ls))
              + min (character p) (length (ls ! line p)))"

definition getTextInRange :: "TextDocument \<Rightarrow> Range \<Rightarrow> string" where
  "getTextInRange document r =
     substring (getText document) (offsetAt document (range_start r))
       (offsetAt document (range_end r))"

section \<open>JSON.parse\<close>

text \<open>
  \<^verbatim>\<open>JSON.parse\<close> is the JavaScript built-in; the program only uses whether it throws.
  It is modelled by a recogniser of the JSON grammar (ECMA-404): one pass over the text
  with the state of the token being read and the stack of the open containers.
\<close>

datatype container = InArray | InObject

datatype parserState =
    ExpectValue
  | ExpectValueOrEnd
  | ExpectKeyOrEnd
  | ExpectKey
  | ExpectColon
  | AfterValue
  | InString bool
  | InEscape bool
  | InHex bool nat
  | InLiteral string
  | NumMinus | NumZero | NumInt | NumDot | NumFrac | NumE | NumESign | NumExp

definition isWhitespace :: "char \<Rightarrow> bool" where
  "isWhitespace c \<longleftrightarrow> c = CHR '' '' \<or> c = CHR 0x09 \<or> c = LF \<or> c = CHR 0x0D"

definition isDigit :: "char \<Rightarrow> bool" where
  "isDigit c \<longleftrightarrow> c \<in> set ''0123456789''"

definition isHexDigit :: "char \<Rightarrow> bool" where
  "isHexDigit c \<longleftrightarrow> c \<in> set ''0123456789abcdefABCDEF''"

definition isControl :: "char \<Rightarrow> bool" where
  "isControl c \<longleftrightarrow> (of_char c :: nat) < 32"

definition startValue :: "char \<Rightarrow> container list \<Rightarrow> (parserState \<times> container list) option" where
  "startValue c st =
     (if c = CHR ''{'' then Some (ExpectKeyOrEnd, InObject # st)
      else if c = CHR ''['' then Some (ExpectValueOrEnd, InArray # st)
      else if c = DQ then Some (InString False, st)
      else if c = CHR ''-'' then Some (NumMinus, st)
      else if c = CHR ''0'' then Some (NumZero, st)
      else if isDigit c then Some (NumInt, st)
      else if c = CHR ''t'' then Some (InLiteral ''rue'', st)
      else if c = CHR ''f'' then Some (InLiteral ''alse'', st)
      else if c = CHR ''n'' then Some (InLiteral ''ull'', st)
      else None)"

definition afterValue :: "char \<Rightarrow> container list \<Rightarrow> (parserState \<times> container list) option" where
  "afterValue c st =
     (if isWhitespace c then Some (AfterValue, st)
      else if c = CHR '','' then
        (case st of InArray # _ \<Rightarrow> Some (ExpectValue, st)
                  | InObject # _ \<Rightarrow> Some (ExpectKey, st)
                  | [] \<Rightarrow> None)
      else if c = CHR '']'' then
        (case st of InArray # rest \<Rightarrow> Some (AfterValue, rest) | _ \<Rightarrow> None)
      else if c = CHR ''}'' then
        (case st of InObject # rest \<Rightarrow> Some (AfterValue, rest) | _ \<Rightarrow> None)
      else None)"

fun parserStep :: "parserState \<Rightarrow> container list \<Rightarrow> char \<Rightarrow> (parserState \<times> container list) option" where
  "parserStep ExpectValue st c =
     (if isWhitespace c then Some (ExpectValue, st) else startValue c st)"
| "parserStep ExpectValueOrEnd st c =
     (if isWhitespace c then Some (ExpectValueOrEnd, st)
      else if c = CHR '']'' then Some (AfterValue, tl st)
      else startValue c st)"
| "parserStep ExpectKeyOrEnd st c =
     (if isWhitespace c then Some (ExpectKeyOrEnd, st)
      else if c = CHR ''}'' then Some (AfterValue, tl st)
      else if c = DQ then Some (InString True, st)
      else None)"
| "parserStep ExpectKey st c =
     (if isWhitespace c then Some (ExpectKey, st)
      else if c = DQ then Some (InString True, st)
      else None)"
| "parserStep ExpectColon st c =
     (if isWhitespace c then Some (ExpectColon, st)
      else if c = CHR '':'' then Some (ExpectValue, st)
      else None)"
| "parserStep AfterValue st c = afterValue c st"
| "parserStep (InString key) st c =
     (if c = DQ then Some (if key then ExpectColon else AfterValue, st)
      else if c = BSL then Some (InEscape key, st)
      else if isControl c then None
      else Some (InString key, st))"
| "parserStep (InEscape key) st c =
     (if c \<in> set [DQ, BSL, CHR ''/'', CHR ''b'', CHR ''f'', CHR ''n'', CHR ''r'', CHR ''t'']
      then Some (InString key, st)
      else if c = CHR ''u'' then Some (InHex key 4, st)
      else None)"
| "parserStep (InHex key n) st c =
     (if isHexDigit c then Some (if n \<le> 1 then InString key else InHex key (n - 1), st)
      else None)"
| "parserStep (InLiteral rest) st c =
     (case rest of
        [] \<Rightarrow> None
      | x # xs \<Rightarrow> if c = x then Some (if xs = [] then AfterValue else InLiteral xs, st)
                 else None)"
| "parserStep NumMinus st c =
     (if c = CHR ''0'' then Some (NumZero, st)
      else if isDigit c then Some (NumInt, st)
      else None)"
| "parserStep NumZero st c =
     (if c = CHR ''.'' then Some (NumDot, st)
      else if c = CHR ''e'' \<or> c = CHR ''E'' then Some (NumE, st)
      else afterValue c st)"
| "parserStep NumInt st c =
     (if isDigit c then Some (NumInt, st)
      else if c = CHR ''.'' then Some (NumDot, st)
      else if c = CHR ''e'' \<or> c = CHR ''E'' then Some (NumE, st)
      else afterValue c st)"
| "parserStep NumDot st c = (if isDigit c then Some (NumFrac, st) else None)"
| "parserStep NumFrac st c =
     (if isDigit c then Some (NumFrac, st)
      else if c = CHR ''e'' \<or> c = CHR ''E'' then Some (NumE, st)
      else afterValue c st)"
| "parserStep NumE st c =
     (if c = CHR ''+'' \<or> c = CHR ''-'' then Some (NumESign, st)
      else if isDigit c then Some (NumExp, st)
      else None)"
| "parserStep NumESign st c = (if isDigit c then Some (NumExp, st) else None)"
| "parserStep NumExp st c = (if isDigit c then Some (NumExp, st) else afterValue c st)"

definition accepting :: "parserState \<Rightarrow> bool" where
  "accepting s \<longleftrightarrow> s \<in> set [AfterValue, NumZero, NumInt, NumFrac, NumExp]"

fun parserRun :: "parserState \<Rightarrow> container list \<Rightarrow> string \<Rightarrow> bool" where
  "parserRun s st [] = (st = [] \<and> accepting s)"
| "parserRun s st (c # cs) =
     (case parserStep s st c of None \<Rightarrow> False | Some (s', st') \<Rightarrow> parserRun s' st' cs)"

text \<open>\<open>JSON_parse text\<close> holds when \<^verbatim>\<open>JSON.parse(text)\<close> returns, and fails when it throws.\<close>

definition JSON_parse :: "string \<Rightarrow> bool" where
  "JSON_parse text = parserRun ExpectValue [] text"


section \<open>jsonStringDetector.ts: the newline escape locator\<close>

text \<open>
  The inner loop of \<^verbatim>\<open>findNewlineEscapeSequences\<close>:
  \<^verbatim>\<open>let j = i - 1; while (j >= 0 && text[j] === '\\') { backslashCount++; j--; }\<close>
  The loop variable of the model is \<open>j + 1\<close>, so that \<open>j = -1\<close> is \<open>0\<close>.
\<close>

fun countBackslashes :: "string \<Rightarrow> nat \<Rightarrow> nat \<Rightarrow> nat" where
  "countBackslashes text 0 backslashCount = backslashCount"
| "countBackslashes text (Suc j) backslashCount =
     (if text ! j = BSL then countBackslashes text j (Suc backslashCount) else backslashCount)"

text \<open>
  The outer loop, \<^verbatim>\<open>while (i < text.length - 1)\<close>, from index \<open>i\<close> with the positions
  pushed so far.
\<close>

function findNewlineLoop :: "string \<Rightarrow> nat \<Rightarrow> nat list \<Rightarrow> nat list" where
  "findNewlineLoop text i positions =
     (if i + 1 < length text then
        (if text ! i = BSL \<and> text ! (i + 1) = CHR ''n'' then
           findNewlineLoop text (i + 2)
             (if countBackslashes text i 0 mod 2 = 0 then positions @ [i] else positions)
         else findNewlineLoop text (i + 1) positions)
      else positions)"
  by pat_completeness auto
termination
  by (relation "measure (\<lambda>(text, i, positions). length text - i)") auto

declare findNewlineLoop.simps [simp del]

definition findNewlineEscapeSequences :: "string \<Rightarrow> nat list" where
  "findNewlineEscapeSequences text = findNewlineLoop text 0 []"

definition containsNewlines :: "string \<Rightarrow> bool" where
  "containsNewlines text = (length (findNewlineEscapeSequences text) > 0)"

definition countNewlinesInString :: "string \<Rightarrow> nat" where
  "countNewlinesInString text = length (findNewlineEscapeSequences text)"

text \<open>
  The parity law speaks of the number of consecutive backslashes immediately preceding a
  position. This definition follows those words, independently of the loop above.
\<close>

definition precedingBackslashes :: "string \<Rightarrow> nat \<Rightarrow> nat" where
  "precedingBackslashes text i = length (takeWhile (\<lambda>c. c = BSL) (rev (take i text)))"

section \<open>jsonStringDetector.ts: the string scanner\<close>

text \<open>A \<^verbatim>\<open>StringRange\<close>: the positions of the opening quote and of the character after the
  closing quote, the raw content between the quotes, and the newline flag.\<close>

datatype StringRange =
  StringRange (start: Position) (end': Position) (content: string) (hasNewlines: bool)

text \<open>A \<^verbatim>\<open>JsonParsingResult\<close>. The diagnostic fields \<^verbatim>\<open>error\<close> and \<^verbatim>\<open>errorPosition\<close> are
  cut out of the message of the engine's exception, which the model does not have; they
  are left out.\<close>

record JsonParsingResult =
  isValid :: bool
  stringRanges :: "StringRange list"

definition isValidUnicodeEscape :: "string \<Rightarrow> bool" where
  "isValidUnicodeEscape hexChars \<longleftrightarrow> length hexChars = 4 \<and> (\<forall>c \<in> set hexChars. isHexDigit c)"

definition isValidEscapeSequence :: "char \<Rightarrow> bool" where
  "isValidEscapeSequence c \<longleftrightarrow>
     c \<in> set [DQ, BSL, CHR ''/'', CHR ''b'', CHR ''f'', CHR ''n'', CHR ''r'', CHR ''t'', CHR ''u'']"

text \<open>
  The loop of \<^verbatim>\<open>extractSingleStringRange\<close> that looks for the closing quote from index
  \<open>i\<close>; \<open>None\<close> is the source's \<^verbatim>\<open>stringEnd === -1\<close>. A valid and an invalid escape both
  advance by two, a control character and any other character both advance by one.
\<close>

function findStringEnd :: "string \<Rightarrow> nat \<Rightarrow> nat option" where
  "findStringEnd text i =
     (if i < length text then
        (if text ! i = BSL then
           (if i + 1 < length text then
              (if text ! (i + 1) = CHR ''u'' then
                 (if i + 5 < length text \<and> isValidUnicodeEscape (substring text (i + 2) (i + 6))
                  then findStringEnd text (i + 6)
                  else findStringEnd text (i + 2))
               else if isValidEscapeSequence (text ! (i + 1)) then findStringEnd text (i + 2)
               else findStringEnd text (i + 2))
            else None)
         else if text ! i = DQ then Some i
         else findStringEnd text (i + 1))
      else None)"
  by pat_completeness auto
termination
  by (relation "measure (\<lambda>(text, i). length text - i)") auto

declare findStringEnd.simps [simp del]

text \<open>\<^verbatim>\<open>extractSingleStringRange\<close>: the range and \<^verbatim>\<open>nextIndex\<close>, or \<open>None\<close> for \<^verbatim>\<open>null\<close>.\<close>

definition extractSingleStringRange :: "TextDocument \<Rightarrow> string \<Rightarrow> nat \<Rightarrow> (StringRange \<times> nat) option" where
  "extractSingleStringRange document text startIndex =
     (if \<not> (startIndex < length text \<and> text ! startIndex = DQ) then None
      else case findStringEnd text (startIndex + 1) of
        None \<Rightarrow> None
      | Some stringEnd \<Rightarrow>
          (let stringContent = substring text (startIndex + 1) stringEnd;
               hasNewlines = containsNewlines stringContent;
               startPos = positionAt document startIndex;
               endPos = positionAt document (stringEnd + 1)
           in Some (StringRange startPos endPos stringContent hasNewlines, stringEnd + 1)))"

text \<open>The closing quote lies after the opening one and inside the text, so the scanning
  loops below advance.\<close>

lemma findStringEnd_bounds:
  "findStringEnd text i = Some e \<Longrightarrow> i \<le> e \<and> e < length text \<and> text ! e = DQ"
proof (induction "text" i rule: findStringEnd.induct)
  case (1 "text" i)
  have unfolded: "findStringEnd text i =
     (if i < length text then
        (if text ! i = BSL then
           (if i + 1 < length text then
              (if text ! (i + 1) = CHR ''u'' \<and> i + 5 < length text
                    \<and> isValidUnicodeEscape (substring text (i + 2) (i + 6))
               then findStringEnd text (i + 6) else findStringEnd text (i + 2))
            else None)
         else if text ! i = DQ then Some i
         else findStringEnd text (i + 1))
      else None)"
    by (subst findStringEnd.simps) simp
  show ?case
  proof (cases "text ! i = BSL")
    case True
    show ?thesis
    proof (cases "text ! (i + 1) = CHR ''u'' \<and> i + 5 < length text
                    \<and> isValidUnicodeEscape (substring text (i + 2) (i + 6))")
      case six: True
      then have "findStringEnd text (i + 6) = Some e"
        using "1.prems" True unfolded by (simp split: if_splits)
      with "1.IH"(1) six True show ?thesis by fastforce
    next
      case two: False
      then have call: "findStringEnd text (i + 2) = Some e" and i: "i < length text"
        and i1: "i + 1 < length text"
        using "1.prems" True unfolded by (simp_all split: if_splits)
      show ?thesis
      proof (cases "text ! (i + 1) = CHR ''u''")
        case True
        with "1.IH"(2) [OF i \<open>text ! i = BSL\<close> i1 True] two call show ?thesis by fastforce
      next
        case False
        with "1.IH"(3) [OF i \<open>text ! i = BSL\<close> i1 False]
             "1.IH"(4) [OF i \<open>text ! i = BSL\<close> i1 False] call
        show ?thesis by fastforce
      qed
    qed
  next
    case False
    show ?thesis
    proof (cases "text ! i = DQ")
      case True
      with "1.prems" False unfolded show ?thesis by (simp split: if_splits)
    next
      case notq: False
      then have call: "findStringEnd text (i + 1) = Some e" and i: "i < length text"
        using "1.prems" False unfolded by (simp_all split: if_splits)
      with "1.IH"(5) [OF i False notq] show ?thesis by fastforce
    qed
  qed
qed

lemma extractSingleStringRange_bounds:
  "extractSingleStringRange document text i = Some (r, nextIndex) \<Longrightarrow>
   i < nextIndex \<and> nextIndex \<le> length text"
  by (auto simp: extractSingleStringRange_def Let_def split: if_splits option.splits
           dest!: findStringEnd_bounds)

text \<open>The loop of \<^verbatim>\<open>extractStringRangesWithLimits\<close> over the cut text.\<close>

function limitedLoop :: "TextDocument \<Rightarrow> string \<Rightarrow> nat \<Rightarrow> StringRange list \<Rightarrow> StringRange list" where
  "limitedLoop document limitedText i ranges =
     (if i < length limitedText then
        (if limitedText ! i = DQ then
           (case extractSingleStringRange document limitedText i of
              Some (stringResult, nextIndex) \<Rightarrow>
                limitedLoop document limitedText nextIndex (ranges @ [stringResult])
            | None \<Rightarrow> limitedLoop document limitedText (i + 1) ranges)
         else limitedLoop document limitedText (i + 1) ranges)
      else ranges)"
  by pat_completeness auto
termination
  by (relation "measure (\<lambda>(document, limitedText, i, ranges). length limitedText - i)")
     (auto dest: extractSingleStringRange_bounds)

declare limitedLoop.simps [simp del]

definition extractStringRangesWithLimits :: "TextDocument \<Rightarrow> string \<Rightarrow> nat \<Rightarrow> StringRange list" where
  "extractStringRangesWithLimits document text limit =
     limitedLoop document (substring text 0 limit) 0 []"

text \<open>The loop of \<^verbatim>\<open>extractStringRangesFromValidJson\<close>,
  \<^verbatim>\<open>while (i < text.length && stringCount < maxStrings)\<close>.\<close>

definition maxFileSize :: nat where "maxFileSize = 1024 * 1024"
definition maxStrings :: nat where "maxStrings = 10000"

function extractLoop :: "TextDocument \<Rightarrow> string \<Rightarrow> nat \<Rightarrow> nat \<Rightarrow> StringRange list \<Rightarrow> StringRange list" where
  "extractLoop document text i stringCount ranges =
     (if i < length text \<and> stringCount < maxStrings then
        (if text ! i = DQ then
           (case extractSingleStringRange document text i of
              Some (stringResult, nextIndex) \<Rightarrow>
                extractLoop document text nextIndex (stringCount + 1) (ranges @ [stringResult])
            | None \<Rightarrow> extractLoop document text (i + 1) stringCount ranges)
         else extractLoop document text (i + 1) stringCount ranges)
      else ranges)"
  by pat_completeness auto
termination
  by (relation "measure (\<lambda>(document, text, i, stringCount, ranges). length text - i)")
     (auto dest: extractSingleStringRange_bounds)

declare extractLoop.simps [simp del]

definition extractStringRangesFromValidJson :: "TextDocument \<Rightarrow> string \<Rightarrow> StringRange list" where
  "extractStringRangesFromValidJson document text =
     (if length text > maxFileSize then extractStringRangesWithLimits document text maxFileSize
      else extractLoop document text 0 0 [])"

text \<open>\<^verbatim>\<open>parseJsonSafely\<close>: the \<^verbatim>\<open>try\<close> branch when \<^verbatim>\<open>JSON.parse\<close> returns, the \<^verbatim>\<open>catch\<close> branch
  when it throws. The performance metrics and the notification are not modelled.\<close>

definition parseJsonSafely :: "TextDocument \<Rightarrow> JsonParsingResult" where
  "parseJsonSafely document =
     (let text = getText document
      in if JSON_parse text
         then \<lparr>isValid = True, stringRanges = extractStringRangesFromValidJson document text\<rparr>
         else \<lparr>isValid = False, stringRanges = []\<rparr>)"

definition findStringRanges :: "TextDocument \<Rightarrow> StringRange list" where
  "findStringRanges document = stringRanges (parseJsonSafely document)"

text \<open>\<^verbatim>\<open>isPositionInRange\<close> and \<^verbatim>\<open>getStringRangeAtPosition\<close>: the first range that holds the
  position, \<open>None\<close> for \<^verbatim>\<open>null\<close>.\<close>

definition isPositionInRange :: "Position \<Rightarrow> StringRange \<Rightarrow> bool" where
  "isPositionInRange position stringRange \<longleftrightarrow>
     isAfterOrEqual position (start stringRange) \<and> isBefore position (end' stringRange)"

definition getStringRangeAtPosition :: "TextDocument \<Rightarrow> Position \<Rightarrow> StringRange option" where
  "getStringRangeAtPosition document position =
     (let result = parseJsonSafely document
      in if \<not> isValid result then None
         else find (isPositionInRange position) (stringRanges result))"

section \<open>jsonStringDetector.ts: newline positions\<close>

datatype NewlinePosition = NewlinePosition (newlineAt: Position) (inRange: StringRange)

datatype DetailedNewlinePosition =
  DetailedNewlinePosition (position: Position) (endPosition: Position) (stringRange: StringRange)
    (offset: nat) (endOffset: nat) (indexInString: nat) (beforeText: string) (afterText: string)

text \<open>The loop of \<^verbatim>\<open>findNewlinePositionsInString\<close>, \<^verbatim>\<open>while (i < stringEndOffset - 1)\<close>.\<close>

function newlinePositionsLoop ::
  "TextDocument \<Rightarrow> StringRange \<Rightarrow> nat \<Rightarrow> nat \<Rightarrow> NewlinePosition list \<Rightarrow> NewlinePosition list" where
  "newlinePositionsLoop document sr stringEndOffset i positions =
     (let text = getText document in
      if i < stringEndOffset - 1 then
        (if text ! i = BSL \<and> text ! (i + 1) = CHR ''n'' then
           newlinePositionsLoop document sr stringEndOffset (i + 2)
             (positions @ [NewlinePosition (positionAt document i) sr])
         else if text ! i = BSL then
           newlinePositionsLoop document sr stringEndOffset (i + 2) positions
         else newlinePositionsLoop document sr stringEndOffset (i + 1) positions)
      else positions)"
  by pat_completeness auto
termination
  by (relation "measure (\<lambda>(document, sr, stringEndOffset, i, positions). stringEndOffset - i)")
     auto

declare newlinePositionsLoop.simps [simp del]

definition findNewlinePositionsInString :: "TextDocument \<Rightarrow> StringRange \<Rightarrow> NewlinePosition list" where
  "findNewlinePositionsInString document sr =
     (let stringStartOffset = offsetAt document (start sr) + 1;
          stringEndOffset = offsetAt document (end' sr) - 1
      in newlinePositionsLoop document sr stringEndOffset stringStartOffset [])"

definition extractNewlinePositions :: "TextDocument \<Rightarrow> NewlinePosition list" where
  "extractNewlinePositions document =
     (let result = parseJsonSafely document
      in if \<not> isValid result then []
         else concat (map (findNewlinePositionsInString document)
                (filter hasNewlines (stringRanges result))))"

text \<open>
  \<^verbatim>\<open>isRealNewlineEscape\<close>: the backward loop
  \<^verbatim>\<open>while (j >= stringStart && text[j] === '\\')\<close>, again with \<open>j + 1\<close> as the loop variable.
\<close>

fun countBackslashesFrom :: "string \<Rightarrow> nat \<Rightarrow> nat \<Rightarrow> nat \<Rightarrow> nat" where
  "countBackslashesFrom text stringStart 0 backslashCount = backslashCount"
| "countBackslashesFrom text stringStart (Suc j) backslashCount =
     (if j \<ge> stringStart \<and> text ! j = BSL
      then countBackslashesFrom text stringStart j (Suc backslashCount)
      else backslashCount)"

definition isRealNewlineEscape :: "string \<Rightarrow> nat \<Rightarrow> nat \<Rightarrow> bool" where
  "isRealNewlineEscape text pos stringStart \<longleftrightarrow>
     countBackslashesFrom text stringStart pos 0 mod 2 = 0"

text \<open>The loop of \<^verbatim>\<open>findDetailedNewlinePositionsInString\<close>.\<close>

function detailedLoop ::
  "TextDocument \<Rightarrow> StringRange \<Rightarrow> nat \<Rightarrow> nat \<Rightarrow> nat \<Rightarrow> nat \<Rightarrow>
   DetailedNewlinePosition list \<Rightarrow> DetailedNewlinePosition list" where
  "detailedLoop document sr stringStartOffset stringEndOffset i newlineIndex positions =
     (let text = getText document in
      if i < stringEndOffset - 1 then
        (if text ! i = BSL then
           (if i + 1 < stringEndOffset then
              (if text ! (i + 1) = CHR ''n'' then
                 (if isRealNewlineEscape text i stringStartOffset then
                    detailedLoop document sr stringStartOffset stringEndOffset (i + 2)
                      (newlineIndex + 1)
                      (positions @
                        [DetailedNewlinePosition (positionAt document i)
                           (positionAt document (i + 2)) sr i (i + 2) newlineIndex
                           (substring text stringStartOffset i)
                           (substring text (i + 2) stringEndOffset)])
                  else detailedLoop document sr stringStartOffset stringEndOffset (i + 2)
                         newlineIndex positions)
               else if text ! (i + 1) = CHR ''u'' then
                 (if i + 5 < stringEndOffset
                       \<and> isValidUnicodeEscape (substring text (i + 2) (i + 6))
                  then detailedLoop document sr stringStartOffset stringEndOffset (i + 6)
                         newlineIndex positions
                  else detailedLoop document sr stringStartOffset stringEndOffset (i + 2)
                         newlineIndex positions)
               else detailedLoop document sr stringStartOffset stringEndOffset (i + 2)
                      newlineIndex positions)
            else detailedLoop document sr stringStartOffset stringEndOffset (i + 1)
                   newlineIndex positions)
         else detailedLoop document sr stringStartOffset stringEndOffset (i + 1)
                newlineIndex positions)
      else positions)"
  by pat_completeness auto
termination
  by (relation "measure (\<lambda>(document, sr, stringStartOffset, stringEndOffset, i, newlineIndex,
                            positions). stringEndOffset - i)") auto

declare detailedLoop.simps [simp del]

definition findDetailedNewlinePositionsInString ::
  "TextDocument \<Rightarrow> StringRange \<Rightarrow> DetailedNewlinePosition list" where
  "findDetailedNewlinePositionsInString document sr =
     (let stringStartOffset = offsetAt document (start sr) + 1;
          stringEndOffset = offsetAt document (end' sr) - 1
      in detailedLoop document sr stringStartOffset stringEndOffset stringStartOffset 0 [])"

definition getDetailedNewlinePositions :: "TextDocument \<Rightarrow> DetailedNewlinePosition list" where
  "getDetailedNewlinePositions document =
     (let result = parseJsonSafely document
      in if \<not> isValid result then []
         else concat (map (findDetailedNewlinePositionsInString document)
                (filter hasNewlines (stringRanges result))))"

text \<open>
  \<^verbatim>\<open>calculateVisualPosition\<close>. \<^verbatim>\<open>beforeNewline.match(/\\n/g)\<close> counts the backslash-n pairs
  from left to right without overlap, \<^verbatim>\<open>stringContent.split('\\n')\<close> cuts the content at
  them, and \<^verbatim>\<open>lines[currentLineIndex] || ''\<close> is the empty string past the last piece.
\<close>

fun countEscapePairs :: "string \<Rightarrow> nat" where
  "countEscapePairs (c # d # rest) =
     (if c = BSL \<and> d = CHR ''n'' then 1 + countEscapePairs rest
      else countEscapePairs (d # rest))"
| "countEscapePairs _ = 0"

fun splitAtEscapePairs :: "string \<Rightarrow> string list" where
  "splitAtEscapePairs (c # d # rest) =
     (if c = BSL \<and> d = CHR ''n'' then [] # splitAtEscapePairs rest
      else (case splitAtEscapePairs (d # rest) of
              l # ls \<Rightarrow> (c # l) # ls
            | [] \<Rightarrow> [[c]]))"
| "splitAtEscapePairs s = [s]"

record VisualPositionInfo =
  visualLine :: nat
  visualCharacter :: nat
  totalVisualLines :: nat
  currentLineContent :: string
  isLastNewlineInString :: bool

definition calculateVisualPosition :: "TextDocument \<Rightarrow> DetailedNewlinePosition \<Rightarrow> VisualPositionInfo" where
  "calculateVisualPosition document newlinePosition =
     (let stringContent = content (stringRange newlinePosition);
          beforeNewline = beforeText newlinePosition;
          linesBeforeThisNewline = countEscapePairs beforeNewline;
          lines = splitAtEscapePairs stringContent;
          currentLineIndex = linesBeforeThisNewline;
          lineContent = (if currentLineIndex < length lines then lines ! currentLineIndex else [])
      in \<lparr>visualLine = currentLineIndex,
          visualCharacter = length lineContent,
          totalVisualLines = length lines,
          currentLineContent = lineContent,
          isLastNewlineInString =
            (int (indexInString newlinePosition) = int (countNewlinesInString stringContent) - 1)\<rparr>)"

section \<open>decorationManager.ts\<close>

datatype NewlineDecoration =
  NewlineDecoration (decorationRange: Range) (renderText: string) (isActive: bool)

record DecorationManager =
  currentDecorations :: "NewlineDecoration list"
  isEnabled :: bool

definition createDecorationForNewline :: "DetailedNewlinePosition \<Rightarrow> NewlineDecoration" where
  "createDecorationForNewline newlinePos =
     NewlineDecoration (newRange (position newlinePos) (endPosition newlinePos)) [LF] True"

text \<open>\<^verbatim>\<open>applyDecorations\<close>; \<open>activeEditor\<close> is the document of
  \<^verbatim>\<open>vscode.window.activeTextEditor\<close>, if there is one.\<close>

definition applyDecorations ::
  "TextDocument option \<Rightarrow> TextDocument \<Rightarrow> DecorationManager \<Rightarrow> DecorationManager" where
  "applyDecorations activeEditor document dm =
     (if \<not> isEnabled dm then dm
      else if activeEditor \<noteq> Some document then dm
      else dm\<lparr>currentDecorations :=
                map createDecorationForNewline (getDetailedNewlinePositions document)\<rparr>)"

definition updateDecorations ::
  "TextDocument option \<Rightarrow> TextDocument \<Rightarrow> DecorationManager \<Rightarrow> DecorationManager" where
  "updateDecorations activeEditor document dm =
     (if \<not> isEnabled dm then dm else applyDecorations activeEditor document dm)"

definition getDecorationsInRange :: "DecorationManager \<Rightarrow> Range \<Rightarrow> NewlineDecoration list" where
  "getDecorationsInRange dm r =
     filter (\<lambda>decoration. isActive decoration \<and> intersection r (decorationRange decoration) \<noteq> None)
       (currentDecorations dm)"

section \<open>editSynchronizer.ts\<close>

datatype EditMapping =
  EditMapping (visualPosition: Position) (actualPosition: Position) (mappingOffset: nat)

datatype DocumentState =
  DocumentState (originalContent: string) (visualContent: string) (mappings: "EditMapping list")
    (stateVersion: nat)

text \<open>A \<^verbatim>\<open>TextDocumentContentChangeEvent\<close> (its range and its text), a
  \<^verbatim>\<open>TextDocumentChangeEvent\<close>, and the one kind of \<^verbatim>\<open>WorkspaceEdit\<close> the program builds:
  \<^verbatim>\<open>edit.replace(uri, range, newText)\<close>.\<close>

datatype ContentChange = ContentChange (changeRange: Range) (changeText: string)

datatype TextDocumentChangeEvent =
  TextDocumentChangeEvent (eventDocument: TextDocument) (contentChanges: "ContentChange list")

datatype WorkspaceEdit = Replace string Range string

text \<open>The state of an \<^verbatim>\<open>EditSynchronizer\<close>: its flag, its map of document states, and the
  decoration manager it was built with.\<close>

record EditSynchronizer =
  isProcessingEdit :: bool
  documentStates :: "string \<rightharpoonup> DocumentState"
  decorationManager :: DecorationManager

definition isJsonDocument :: "TextDocument \<Rightarrow> bool" where
  "isJsonDocument document \<longleftrightarrow> languageId document = ''json'' \<or> languageId document = ''jsonc''"

text \<open>The loop of \<^verbatim>\<open>calculateInitialMappings\<close> with its \<^verbatim>\<open>cumulativeOffset\<close>.\<close>

fun initialMappingsLoop :: "DetailedNewlinePosition list \<Rightarrow> nat \<Rightarrow> EditMapping list" where
  "initialMappingsLoop [] cumulativeOffset = []"
| "initialMappingsLoop (newlinePos # rest) cumulativeOffset =
     EditMapping
       (Position (line (position newlinePos) + cumulativeOffset) (character (position newlinePos)))
       (position newlinePos) cumulativeOffset
     # initialMappingsLoop rest (cumulativeOffset + 2)"

definition calculateInitialMappings :: "TextDocument \<Rightarrow> EditMapping list" where
  "calculateInitialMappings document =
     initialMappingsLoop (getDetailedNewlinePositions document) 0"

definition initializeDocumentState :: "TextDocument \<Rightarrow> EditSynchronizer \<Rightarrow> EditSynchronizer" where
  "initializeDocumentState document es =
     es\<lparr>documentStates := (documentStates es)(uri document \<mapsto>
          DocumentState (getText document) (getText document)
            (calculateInitialMappings document) (version document))\<rparr>"

definition ensureDocumentState :: "TextDocument \<Rightarrow> EditSynchronizer \<Rightarrow> EditSynchronizer" where
  "ensureDocumentState document es =
     (if isJsonDocument document \<and> documentStates es (uri document) = None
      then initializeDocumentState document es else es)"

definition updateDocumentState :: "TextDocument \<Rightarrow> EditSynchronizer \<Rightarrow> EditSynchronizer" where
  "updateDocumentState document es =
     (case documentStates es (uri document) of
        Some existingState \<Rightarrow>
          es\<lparr>documentStates := (documentStates es)(uri document \<mapsto>
               DocumentState (getText document) (visualContent existingState)
                 (calculateInitialMappings document) (version document))\<rparr>
      | None \<Rightarrow> initializeDocumentState document es)"

text \<open>
  The two position transformations. Their call of \<^verbatim>\<open>ensureDocumentState\<close> does not
  bear on the position they return, which is what is modelled.
\<close>

definition calculateVisualPositionForNewline :: "TextDocument \<Rightarrow> DetailedNewlinePosition \<Rightarrow> Position" where
  "calculateVisualPositionForNewline document newlinePos =
     (let visualInfo = calculateVisualPosition document newlinePos
      in Position (line (position newlinePos) + visualLine visualInfo)
                  (visualCharacter visualInfo))"

text \<open>The loop of \<^verbatim>\<open>transformVisualToActual\<close> over the newline positions, with
  \<^verbatim>\<open>actualLine\<close> and \<^verbatim>\<open>cumulativeOffset\<close>.\<close>

fun visualToActualLoop ::
  "TextDocument \<Rightarrow> Position \<Rightarrow> DetailedNewlinePosition list \<Rightarrow> nat \<Rightarrow> nat \<Rightarrow> nat \<times> nat" where
  "visualToActualLoop document visualPos [] actualLine cumulativeOffset =
     (actualLine, cumulativeOffset)"
| "visualToActualLoop document visualPos (newlinePos # rest) actualLine cumulativeOffset =
     (let newlineVisualPos = calculateVisualPositionForNewline document newlinePos
      in if line newlineVisualPos < line visualPos
            \<or> (line newlineVisualPos = line visualPos
                \<and> character newlineVisualPos \<le> character visualPos)
         then (if line newlineVisualPos < line visualPos
               then visualToActualLoop document visualPos rest (line (position newlinePos))
                      (cumulativeOffset + 2)
               else visualToActualLoop document visualPos rest actualLine (cumulativeOffset + 2))
         else visualToActualLoop document visualPos rest actualLine cumulativeOffset)"

definition transformVisualToActual :: "TextDocument \<Rightarrow> Position \<Rightarrow> Position" where
  "transformVisualToActual document visualPos =
     (let newlinePositions = getDetailedNewlinePositions document
      in if length newlinePositions = 0 then visualPos
         else
           (let (actualLine, cumulativeOffset) =
                  visualToActualLoop document visualPos newlinePositions (line visualPos) 0;
                actualCharacter = character visualPos;
                actualOffset = offsetAt document (Position actualLine actualCharacter)
                               + cumulativeOffset
            in positionAt document (max 0 actualOffset)))"

text \<open>The loop of \<^verbatim>\<open>transformActualToVisual\<close>, with \<^verbatim>\<open>visualLine\<close>, \<^verbatim>\<open>visualCharacter\<close> and
  \<^verbatim>\<open>newlinesBefore\<close>.\<close>

fun actualToVisualLoop ::
  "nat \<Rightarrow> DetailedNewlinePosition list \<Rightarrow> nat \<Rightarrow> nat \<Rightarrow> nat \<Rightarrow> nat \<times> nat \<times> nat" where
  "actualToVisualLoop actualOffset [] visLine visCharacter newlinesBefore =
     (visLine, visCharacter, newlinesBefore)"
| "actualToVisualLoop actualOffset (newlinePos # rest) visLine visCharacter newlinesBefore =
     (if offset newlinePos < actualOffset then
        (if offset newlinePos + 2 \<le> actualOffset
         then actualToVisualLoop actualOffset rest (visLine + 1)
                (actualOffset - (offset newlinePos + 2)) (newlinesBefore + 1)
         else actualToVisualLoop actualOffset rest visLine visCharacter (newlinesBefore + 1))
      else actualToVisualLoop actualOffset rest visLine visCharacter newlinesBefore)"

definition transformActualToVisual :: "TextDocument \<Rightarrow> Position \<Rightarrow> Position" where
  "transformActualToVisual document actualPos =
     (let newlinePositions = getDetailedNewlinePositions document
      in if length newlinePositions = 0 then actualPos
         else
           (let actualOffset = offsetAt document actualPos;
                (visLine, visCharacter, newlinesBefore) =
                  actualToVisualLoop actualOffset newlinePositions (line actualPos)
                    (character actualPos) 0
            in Position visLine (max 0 visCharacter)))"

text \<open>
  The two content transformations. \<^verbatim>\<open>visualContent.replace(/\n/g, '\\n')\<close> puts
  backslash-n for every line feed; \<^verbatim>\<open>actualContent.replace(/\\n/g, '\n')\<close> puts a line feed
  for every backslash-n pair, found from left to right without overlap.
\<close>

fun replaceLineBreaks :: "string \<Rightarrow> string" where
  "replaceLineBreaks [] = []"
| "replaceLineBreaks (c # rest) =
     (if c = LF then BSL # CHR ''n'' # replaceLineBreaks rest else c # replaceLineBreaks rest)"

fun replaceEscapePairs :: "string \<Rightarrow> string" where
  "replaceEscapePairs (c # d # rest) =
     (if c = BSL \<and> d = CHR ''n'' then LF # replaceEscapePairs rest
      else c # replaceEscapePairs (d # rest))"
| "replaceEscapePairs s = s"

definition transformVisualContentToActual :: "TextDocument \<Rightarrow> string \<Rightarrow> Range \<Rightarrow> string" where
  "transformVisualContentToActual document visualText r =
     (case getStringRangeAtPosition document (range_start r) of
        None \<Rightarrow> visualText
      | Some sr \<Rightarrow> replaceLineBreaks visualText)"

definition transformActualContentToVisual :: "TextDocument \<Rightarrow> string \<Rightarrow> Range \<Rightarrow> string" where
  "transformActualContentToVisual document actualText r =
     (case getStringRangeAtPosition document (range_start r) of
        None \<Rightarrow> actualText
      | Some sr \<Rightarrow> replaceEscapePairs actualText)"

text \<open>
  The change handler. Each function returns the new state of the synchronizer and the
  edits it has handed to \<^verbatim>\<open>vscode.workspace.applyEdit\<close>. \<^verbatim>\<open>newText.includes('\n')\<close> is
  membership of the line feed, \<^verbatim>\<open>newText.includes('\\n')\<close> the presence of a backslash-n
  pair.
\<close>

definition includesEscapePair :: "string \<Rightarrow> bool" where
  "includesEscapePair s \<longleftrightarrow> countEscapePairs s > 0"

definition convertLineBreaksToEscapeSequences ::
  "TextDocument \<Rightarrow> ContentChange \<Rightarrow> EditSynchronizer \<Rightarrow> EditSynchronizer \<times> WorkspaceEdit list" where
  "convertLineBreaksToEscapeSequences document change es =
     (let newText = changeText change;
          convertedText = transformVisualContentToActual document newText (changeRange change)
      in if convertedText \<noteq> newText
         then (es\<lparr>isProcessingEdit := True\<rparr>,
               [Replace (uri document) (changeRange change) convertedText])
         else (es, []))"

text \<open>In \<^verbatim>\<open>handleDecoratedAreaEdit\<close> the deletion branch (\<^verbatim>\<open>handleLineBreakDeletion\<close>) changes
  nothing, and so does \<^verbatim>\<open>handleNewlineInsertion\<close> in \<^verbatim>\<open>processContentChange\<close>.\<close>

definition handleDecoratedAreaEdit ::
  "TextDocument \<Rightarrow> ContentChange \<Rightarrow> EditSynchronizer \<Rightarrow> EditSynchronizer \<times> WorkspaceEdit list" where
  "handleDecoratedAreaEdit document change es =
     (let newText = changeText change
      in case getStringRangeAtPosition document (range_start (changeRange change)) of
           None \<Rightarrow> (es, [])
         | Some sr \<Rightarrow>
             if LF \<in> set newText \<and> \<not> includesEscapePair newText
             then convertLineBreaksToEscapeSequences document change es
             else (es, []))"

definition processContentChange ::
  "TextDocument \<Rightarrow> ContentChange \<Rightarrow> EditSynchronizer \<Rightarrow> EditSynchronizer \<times> WorkspaceEdit list" where
  "processContentChange document change es =
     (let affectedDecorations = getDecorationsInRange (decorationManager es) (changeRange change)
      in if length affectedDecorations > 0 then handleDecoratedAreaEdit document change es
         else (es, []))"

fun processContentChanges ::
  "TextDocument \<Rightarrow> ContentChange list \<Rightarrow> EditSynchronizer \<Rightarrow> EditSynchronizer \<times> WorkspaceEdit list" where
  "processContentChanges document [] es = (es, [])"
| "processContentChanges document (change # rest) es =
     (let (es1, edits1) = processContentChange document change es;
          (es2, edits2) = processContentChanges document rest es1
      in (es2, edits1 @ edits2))"

definition onDidChangeTextDocument ::
  "TextDocument option \<Rightarrow> TextDocumentChangeEvent \<Rightarrow> EditSynchronizer \<Rightarrow>
   EditSynchronizer \<times> WorkspaceEdit list" where
  "onDidChangeTextDocument activeEditor event es =
     (if isProcessingEdit es then (es, [])
      else
        (let document = eventDocument event
         in if \<not> isJsonDocument document then (es, [])
            else if \<not> isValid (parseJsonSafely document) then (es, [])
            else
              (let es1 = ensureDocumentState document es;
                   (es2, edits) = processContentChanges document (contentChanges event) es1;
                   es3 = updateDocumentState document es2;
                   es4 = es3\<lparr>decorationManager :=
                            updateDecorations activeEditor document (decorationManager es3)\<rparr>
               in (es4, edits))))"

text \<open>
  The continuation \<^verbatim>\<open>vscode.workspace.applyEdit(edit).then(() => { ... })\<close>, run when the
  editor has applied the edit: it clears the flag and places the cursor
  (\<^verbatim>\<open>updateCursorAfterTransformation\<close>, which only touches the synchronizer through the
  \<^verbatim>\<open>ensureDocumentState\<close> of \<^verbatim>\<open>transformActualToVisual\<close>).
\<close>

definition applyEditCompleted ::
  "TextDocument option \<Rightarrow> TextDocument \<Rightarrow> EditSynchronizer \<Rightarrow> EditSynchronizer" where
  "applyEditCompleted activeEditor document es =
     (let es1 = es\<lparr>isProcessingEdit := False\<rparr>
      in if activeEditor = Some document then ensureDocumentState document es1 else es1)"

section \<open>Scenario documents\<close>

text \<open>The document of Scenario D, \<^verbatim>\<open>{"a": "x\ny"}\<close>: the string value holds the four
  characters x, backslash, n, y, and the backslash has offset 8.\<close>

definition scenarioText :: string where
  "scenarioText = ''{\"a\": \"x'' @ [BSL, CHR ''n''] @ ''y\"}''"

definition scenarioDoc :: TextDocument where
  "scenarioDoc = \<lparr>getText = scenarioText, languageId = ''json'', uri = ''file:///scenario.json'',
     version = 1\<rparr>"

definition scenarioSpan :: StringRange where
  "scenarioSpan = StringRange (Position 0 6) (Position 0 12) [CHR ''x'', BSL, CHR ''n'', CHR ''y''] True"

text \<open>Which indices the locator keeps: the starts of a backslash-n pair with an even run
  of backslashes before them, in ascending order.\<close>

definition realEscapeAt :: "string \<Rightarrow> nat \<Rightarrow> bool" where
  "realEscapeAt text j \<longleftrightarrow>
     text ! j = BSL \<and> text ! (j + 1) = CHR ''n'' \<and> countBackslashes text j 0 mod 2 = 0"

text \<open>A document whose string value holds x, backslash, backslash, n, y: an escaped
  backslash followed by the letter n.\<close>

definition escapedDoc :: TextDocument where
  "escapedDoc = \<lparr>getText = ''{\"a\": \"x'' @ [BSL, BSL, CHR ''n''] @ ''y\"}'', languageId = ''json'',
     uri = ''file:///escaped.json'', version = 1\<rparr>"

text \<open>The scenario document with a second member on a second line.\<close>

definition twoLineDoc :: TextDocument where
  "twoLineDoc = \<lparr>getText = ''{\"a\": \"x'' @ [BSL, CHR ''n''] @ ''y\",\<newline>\"b\": 1}'',
     languageId = ''json'', uri = ''file:///twoline.json'', version = 1\<rparr>"

text \<open>The scenario document with a line feed after the opening brace, so that the string
  value sits on line 1.\<close>

definition multilineDoc :: TextDocument where
  "multilineDoc = \<lparr>getText = ''{\<newline>\"a\": \"x'' @ [BSL, CHR ''n''] @ ''y\"}'',
     languageId = ''json'', uri = ''file:///multiline.json'', version = 1\<rparr>"

text \<open>
  The mapping claim counts the occurrences whose end offset is at most the target offset.
  This definition follows those words.
\<close>

definition occurrencesEndedBy :: "TextDocument \<Rightarrow> nat \<Rightarrow> DetailedNewlinePosition list" where
  "occurrencesEndedBy document target =
     filter (\<lambda>occ. endOffset occ \<le> target) (getDetailedNewlinePositions document)"

text \<open>The text of the fail-closed example, \<^verbatim>\<open>{"a": }\<close>.\<close>

definition invalidDoc :: TextDocument where
  "invalidDoc = \<lparr>getText = ''{\"a\": }'', languageId = ''json'', uri = ''file:///invalid.json'',
     version = 1\<rparr>"

text \<open>
  A synchronizer as its constructor leaves it, the same after \<^verbatim>\<open>applyDecorations\<close> has run
  on the scenario document in the active editor, and the change event of an Enter key
  pressed at character \<open>c\<close> of line 0 of that document.
\<close>

definition freshSynchronizer :: EditSynchronizer where
  "freshSynchronizer =
     \<lparr>isProcessingEdit = False, documentStates = Map.empty,
      decorationManager = \<lparr>currentDecorations = [], isEnabled = True\<rparr>\<rparr>"

definition decoratedSynchronizer :: EditSynchronizer where
  "decoratedSynchronizer =
     freshSynchronizer\<lparr>decorationManager :=
       applyDecorations (Some scenarioDoc) scenarioDoc (decorationManager freshSynchronizer)\<rparr>"

definition enterAt :: "nat \<Rightarrow> TextDocumentChangeEvent" where
  "enterAt c = TextDocumentChangeEvent scenarioDoc
                 [ContentChange (Range (Position 0 c) (Position 0 c)) [LF]]"

text \<open>
  What the editor hands to the handler when the Enter key is pressed at character \<open>c\<close> of
  line 0 of the scenario document: \<^verbatim>\<open>onDidChangeTextDocument\<close> fires after the change, so
  the document of the event holds the text with the line feed in it, and the change has
  the range that was replaced (empty, at \<open>c\<close>) and the inserted text.
\<close>

definition enteredDoc :: "nat \<Rightarrow> TextDocument" where
  "enteredDoc c = scenarioDoc\<lparr>getText := take c scenarioText @ [LF] @ drop c scenarioText,
                     version := 2\<rparr>"

definition enterDelivered :: "nat \<Rightarrow> TextDocumentChangeEvent" where
  "enterDelivered c = TextDocumentChangeEvent (enteredDoc c)
                        [ContentChange (Range (Position 0 c) (Position 0 c)) [LF]]"

text \<open>A document whose only string holds an escaped quote, \<^verbatim>\<open>["a\"b"]\<close>: the opening quote
  has offset 1, the quote of the escape offset 4 and the closing quote offset 6.\<close>

definition quoteDoc :: TextDocument where
  "quoteDoc = \<lparr>getText = ''[\"a'' @ [BSL, DQ] @ ''b\"]'', languageId = ''json'',
     uri = ''file:///quote.json'', version = 1\<rparr>"

definition quoteSpan :: StringRange where
  "quoteSpan = StringRange (Position 0 1) (Position 0 7) [CHR ''a'', BSL, DQ, CHR ''b''] False"

section \<open>The states of the JSON recogniser along a text\<close>

text \<open>
  To relate the scanner to \<open>JSON_parse\<close>: the state of the recogniser after a prefix of
  the text, the states in which it is inside a string literal and outside one, and the
  invariant that the scanning loops keep on the text of a valid document. In
  \<open>scanInv document t i acc\<close>, \<open>t\<close> is the text the loop runs on (the text of the
  document, or its first \<open>maxFileSize\<close> characters), \<open>i\<close> the index of the loop and
  \<open>acc\<close> the ranges found so far.
\<close>

fun parserAfter :: "parserState \<times> container list \<Rightarrow> string \<Rightarrow> (parserState \<times> container list) option" where
  "parserAfter cfg [] = Some cfg"
| "parserAfter cfg (c # cs) =
     (case parserStep (fst cfg) (snd cfg) c of None \<Rightarrow> None | Some cfg' \<Rightarrow> parserAfter cfg' cs)"

definition stateAt :: "string \<Rightarrow> nat \<Rightarrow> (parserState \<times> container list) option" where
  "stateAt text i = parserAfter (ExpectValue, []) (take i text)"

fun inString :: "parserState \<Rightarrow> bool" where
  "inString (InString key) = True"
| "inString (InEscape key) = True"
| "inString (InHex key n) = True"
| "inString _ = False"

fun outside :: "parserState \<Rightarrow> bool" where
  "outside (InString key) = False"
| "outside (InEscape key) = False"
| "outside (InHex key n) = False"
| "outside (InLiteral rest) = (DQ \<notin> set rest)"
| "outside _ = True"

definition closed :: "bool \<Rightarrow> parserState" where
  "closed key = (if key then ExpectColon else AfterValue)"

definition inStringAt :: "string \<Rightarrow> nat \<Rightarrow> bool" where
  "inStringAt text q \<longleftrightarrow> (case stateAt text q of None \<Rightarrow> False | Some (s, st) \<Rightarrow> inString s)"

text \<open>
  \<open>literalAt text s e\<close>: the recogniser reads one string literal from the quote at index
  \<open>s\<close> to the quote at index \<open>e\<close>. It is not inside a string literal when it comes to
  \<open>s\<close>, it is inside one after each of the characters from \<open>s\<close> up to the one before
  \<open>e\<close>, and it is not inside one after the character at \<open>e\<close>: \<open>s\<close> is the opening
  quote of the literal and \<open>e\<close> its closing quote, not a quote of an escape sequence.
\<close>

definition literalAt :: "string \<Rightarrow> nat \<Rightarrow> nat \<Rightarrow> bool" where
  "literalAt text s e \<longleftrightarrow>
     \<not> inStringAt text s \<and> (\<forall>q \<in> set [s + 1 ..< e + 1]. inStringAt text q)
     \<and> \<not> inStringAt text (e + 1)"

definition scanResult :: "string \<Rightarrow> string \<Rightarrow> nat \<Rightarrow> bool \<Rightarrow> container list \<Rightarrow> bool" where
  "scanResult text t j key st \<longleftrightarrow>
     (findStringEnd t j = None \<and> length t < length text
        \<and> (\<forall>q. j \<le> q \<and> q \<le> length t \<longrightarrow> inStringAt text q))
     \<or> (\<exists>e. findStringEnd t j = Some e \<and> j \<le> e \<and> e < length t
            \<and> stateAt text (Suc e) = Some (closed key, st)
            \<and> (\<forall>m. j \<le> m \<and> m < e \<longrightarrow> \<not> isControl (text ! m))
            \<and> (\<forall>q. j \<le> q \<and> q \<le> e \<longrightarrow> inStringAt text q))"

fun separated :: "StringRange list \<Rightarrow> bool" where
  "separated [] = True"
| "separated (r # rs) = ((\<forall>x \<in> set rs. isBefore (end' r) (start x)) \<and> separated rs)"

definition spanBefore :: "TextDocument \<Rightarrow> nat \<Rightarrow> StringRange \<Rightarrow> bool" where
  "spanBefore document i r \<longleftrightarrow>
     (\<exists>s e. s < e \<and> e < length (getText document)
        \<and> getText document ! s = DQ \<and> getText document ! e = DQ
        \<and> literalAt (getText document) s e
        \<and> start r = positionAt document s \<and> end' r = positionAt document (e + 1)
        \<and> content r = substring (getText document) (s + 1) e
        \<and> (hasNewlines r \<longleftrightarrow> containsNewlines (content r))
        \<and> (\<forall>c \<in> set (content r). \<not> isControl c)
        \<and> e + 1 \<le> i
        \<and> (e + 1 < length (getText document) \<longrightarrow> getText document ! (e + 1) \<noteq> DQ))"

definition outsideAt :: "string \<Rightarrow> nat \<Rightarrow> bool" where
  "outsideAt text i \<longleftrightarrow> (case stateAt text i of None \<Rightarrow> False | Some (s, st) \<Rightarrow> outside s)"

definition cutFrom :: "string \<Rightarrow> string \<Rightarrow> nat \<Rightarrow> bool" where
  "cutFrom text t i \<longleftrightarrow> (\<forall>q. i \<le> q \<and> q \<le> length t \<longrightarrow> inStringAt text q)"

definition scanInv :: "TextDocument \<Rightarrow> string \<Rightarrow> nat \<Rightarrow> StringRange list \<Rightarrow> bool" where
  "scanInv document t i acc \<longleftrightarrow>
     (outsideAt (getText document) i \<or> cutFrom (getText document) t i)
     \<and> (\<forall>r \<in> set acc. spanBefore document i r) \<and> separated acc"

section \<open>The locator's loop, characterised\<close>

lemma countBackslashes_run:
  "k \<le> length text \<Longrightarrow>
   countBackslashes text k c = c + length (takeWhile (\<lambda>c. c = BSL) (rev (take k text)))"
proof (induction k arbitrary: c)
  case 0
  show ?case by simp
next
  case (Suc j)
  then have j: "j < length text" by simp
  have "rev (take (Suc j) text) = text ! j # rev (take j text)"
    using j by (simp add: take_Suc_conv_app_nth)
  then show ?case using Suc.IH [of "Suc c"] j by simp
qed

lemma countBackslashes_preceding:
  "i \<le> length text \<Longrightarrow> countBackslashes text i 0 = precedingBackslashes text i"
  by (simp add: countBackslashes_run precedingBackslashes_def)

lemma findNewlineLoop_filter:
  "findNewlineLoop text i acc = acc @ filter (realEscapeAt text) [i ..< length text - 1]"
proof (induction "text" i acc rule: findNewlineLoop.induct)
  case (1 "text" i positions)
  show ?case
  proof (cases "i + 1 < length text")
    case False
    then show ?thesis by (simp add: findNewlineLoop.simps [of "text" i])
  next
    case inside: True
    then have split: "[i ..< length text - 1] = i # [i + 1 ..< length text - 1]"
      by (simp add: upt_conv_Cons)
    show ?thesis
    proof (cases "text ! i = BSL \<and> text ! (i + 1) = CHR ''n''")
      case False
      then have no: "\<not> realEscapeAt text i" by (auto simp: realEscapeAt_def)
      have "findNewlineLoop text i positions = findNewlineLoop text (i + 1) positions"
        using inside False by (subst findNewlineLoop.simps) auto
      then show ?thesis
        using "1.IH"(2) [OF inside False] no split by simp
    next
      case pair: True
      have notnext: "\<not> realEscapeAt text (i + 1)"
        using pair by (simp add: realEscapeAt_def)
      have rest: "filter (realEscapeAt text) [i + 1 ..< length text - 1]
                  = filter (realEscapeAt text) [i + 2 ..< length text - 1]"
      proof (cases "i + 2 < length text")
        case True
        then have "[i + 1 ..< length text - 1] = (i + 1) # [i + 2 ..< length text - 1]"
          by (simp add: upt_conv_Cons)
        then show ?thesis using notnext by simp
      next
        case False
        then show ?thesis by simp
      qed
      have "findNewlineLoop text i positions = findNewlineLoop text (i + 2)
              (if countBackslashes text i 0 mod 2 = 0 then positions @ [i] else positions)"
        using inside pair by (subst findNewlineLoop.simps) simp
      moreover have "realEscapeAt text i \<longleftrightarrow> countBackslashes text i 0 mod 2 = 0"
        using pair by (simp add: realEscapeAt_def)
      ultimately show ?thesis
        using "1.IH"(1) [OF inside pair] split rest by simp
    qed
  qed
qed

lemma findNewlineEscapeSequences_filter:
  "findNewlineEscapeSequences text = filter (realEscapeAt text) [0 ..< length text - 1]"
  by (simp add: findNewlineEscapeSequences_def findNewlineLoop_filter)

lemma filter_only:
  assumes "m < n" and "\<And>j. j < n \<Longrightarrow> P j \<longleftrightarrow> j = m"
  shows "filter P [0 ..< n] = [m]"
proof -
  have cut: "[0 ..< n] = [0 ..< m] @ m # [Suc m ..< n]"
    using assms(1) upt_add_eq_append [of 0 m "n - m"] by (simp add: upt_conv_Cons)
  have "filter P [0 ..< n] = filter (\<lambda>j. j = m) [0 ..< n]"
    using assms(2) by (intro filter_cong) auto
  also have "\<dots> = filter (\<lambda>j. j = m) ([0 ..< m] @ m # [Suc m ..< n])"
    using cut by simp
  also have "\<dots> = [m]"
    by (auto simp: filter_empty_conv)
  finally show ?thesis .
qed

lemma filter_none:
  assumes "\<And>j. j < n \<Longrightarrow> \<not> P j"
  shows "filter P [0 ..< n] = []"
  using assms by (simp add: filter_empty_conv)

lemma nth_run_pair:
  "(replicate m BSL @ [BSL, CHR ''n'']) ! j =
     (if j \<le> m then BSL else if j = m + 1 then CHR ''n'' else [] ! (j - (m + 2)))"
  by (auto simp: nth_append nth_Cons' less_Suc_eq_le)

lemma preceding_run_pair:
  "precedingBackslashes (replicate m BSL @ [BSL, CHR ''n'']) m = m"
  by (simp add: precedingBackslashes_def takeWhile_replicate)

lemma locate_run:
  "findNewlineEscapeSequences (replicate m BSL @ [BSL, CHR ''n'']) = (if even m then [m] else [])"
proof -
  let ?t = "replicate m BSL @ [BSL, CHR ''n'']"
  have len: "length ?t - 1 = Suc m" by simp
  have cnt: "countBackslashes ?t m 0 = m"
    using countBackslashes_preceding [of m ?t] by (simp add: preceding_run_pair)
  have only: "realEscapeAt ?t j \<longleftrightarrow> j = m \<and> even m" if "j < Suc m" for j
  proof (cases "j = m")
    case True
    then show ?thesis using cnt by (simp add: realEscapeAt_def nth_run_pair even_iff_mod_2_eq_zero)
  next
    case False
    then have "j + 1 \<le> m" using that by simp
    then show ?thesis using False by (simp add: realEscapeAt_def nth_run_pair)
  qed
  show ?thesis
  proof (cases "even m")
    case True
    then have "filter (realEscapeAt ?t) [0 ..< Suc m] = [m]"
      using only by (intro filter_only) auto
    then show ?thesis using True by (simp only: findNewlineEscapeSequences_filter len if_True)
  next
    case False
    then have "filter (realEscapeAt ?t) [0 ..< Suc m] = []"
      using only by (intro filter_none) auto
    then show ?thesis using False by (simp only: findNewlineEscapeSequences_filter len if_False)
  qed
qed

section \<open>Positions\<close>

text \<open>\<^verbatim>\<open>positionAt\<close> is strictly monotone on the offsets of the text.\<close>

lemma positionAt_mono:
  assumes "a < b" and "b \<le> length (getText document)"
  shows "isBefore (positionAt document a) (positionAt document b)"
proof -
  let ?t = "getText document"
  define mid where "mid = take (b - a) (drop a ?t)"
  have tb: "take b ?t = take a ?t @ mid"
    using assms take_add [where i = a and j = "b - a" and xs = "?t"] by (simp add: mid_def)
  have ne: "mid \<noteq> []" using assms by (simp add: mid_def)
  show ?thesis
  proof (cases "LF \<in> set mid")
    case True
    then have "filter (\<lambda>c. c = LF) mid \<noteq> []" by (simp add: filter_empty_conv)
    then have "0 < length (filter (\<lambda>c. c = LF) mid)" by simp
    then show ?thesis by (simp add: isBefore_def positionAt_def tb Let_def)
  next
    case False
    then have none: "filter (\<lambda>c. c = LF) mid = []" by (auto simp: filter_empty_conv)
    have "\<And>x. x \<in> set (rev mid) \<Longrightarrow> x \<noteq> LF" using False by auto
    then have "takeWhile (\<lambda>c. c \<noteq> LF) (rev mid @ rev (take a ?t))
          = rev mid @ takeWhile (\<lambda>c. c \<noteq> LF) (rev (take a ?t))"
      by (rule takeWhile_append2)
    then show ?thesis using ne none by (simp add: isBefore_def positionAt_def tb Let_def)
  qed
qed

section \<open>What the scanner returns\<close>

text \<open>Every range that \<^verbatim>\<open>extractSingleStringRange\<close> builds on a prefix of the document's
  text lies between two quote characters of the document.\<close>

lemma extractSingle_span:
  assumes ex: "extractSingleStringRange document t i = Some (r, nx)"
    and pre: "t = take n (getText document)"
  shows "\<exists>s e. s < e \<and> e < length (getText document) \<and> getText document ! s = DQ
           \<and> getText document ! e = DQ
           \<and> start r = positionAt document s \<and> end' r = positionAt document (e + 1)
           \<and> content r = substring (getText document) (s + 1) e
           \<and> (hasNewlines r \<longleftrightarrow> containsNewlines (content r))"
proof -
  from ex obtain e where i: "i < length t" "t ! i = DQ"
    and fe: "findStringEnd t (i + 1) = Some e"
    and r: "r = StringRange (positionAt document i) (positionAt document (e + 1))
                  (substring t (i + 1) e) (containsNewlines (substring t (i + 1) e))"
    by (auto simp: extractSingleStringRange_def Let_def split: if_splits option.splits)
  from findStringEnd_bounds [OF fe] have e: "i + 1 \<le> e" "e < length t" "t ! e = DQ" by auto
  have len: "length t \<le> length (getText document)" using pre by simp
  have nth: "\<And>k. k < length t \<Longrightarrow> t ! k = getText document ! k" using pre by simp
  have sub: "substring t (i + 1) e = substring (getText document) (i + 1) e"
    using e pre by (auto simp: substring_def drop_take take_take min_def split: if_splits)
  show ?thesis
    using i e len nth [of i] nth [of e] sub r
    by (intro exI [of _ i] exI [of _ e]) auto
qed

lemma extractLoop_all:
  "(\<And>i r nx. extractSingleStringRange document t i = Some (r, nx) \<Longrightarrow> P r) \<Longrightarrow>
   (\<forall>r \<in> set acc. P r) \<Longrightarrow> (\<forall>r \<in> set (extractLoop document t i c acc). P r)"
proof (induction document t i c acc rule: extractLoop.induct)
  case (1 document t i stringCount ranges)
  note step = "1.prems"(1) and acc = "1.prems"(2)
  show ?case
  proof (cases "i < length t \<and> stringCount < maxStrings")
    case False
    then show ?thesis using acc by (subst extractLoop.simps) auto
  next
    case run: True
    show ?thesis
    proof (cases "t ! i = DQ")
      case False
      have "extractLoop document t i stringCount ranges
            = extractLoop document t (i + 1) stringCount ranges"
        using run False by (subst extractLoop.simps) simp
      then show ?thesis using "1.IH"(3) [OF run False step acc] by (simp only:)
    next
      case quote: True
      show ?thesis
      proof (cases "extractSingleStringRange document t i")
        case None
        have "extractLoop document t i stringCount ranges
              = extractLoop document t (i + 1) stringCount ranges"
          using run quote None by (subst extractLoop.simps) simp
        then show ?thesis using "1.IH"(1) [OF run quote None step acc] by (simp only:)
      next
        case (Some res)
        obtain r nx where res: "res = (r, nx)" by (cases res)
        have "extractLoop document t i stringCount ranges
              = extractLoop document t nx (stringCount + 1) (ranges @ [r])"
          using run quote Some res by (subst extractLoop.simps) simp
        moreover have "\<forall>x \<in> set (ranges @ [r]). P x"
          using acc step [of i r nx] Some res by simp
        ultimately show ?thesis
          using "1.IH"(2) [OF run quote Some res [symmetric] step] by (simp only:)
      qed
    qed
  qed
qed

lemma limitedLoop_all:
  "(\<And>i r nx. extractSingleStringRange document t i = Some (r, nx) \<Longrightarrow> P r) \<Longrightarrow>
   (\<forall>r \<in> set acc. P r) \<Longrightarrow> (\<forall>r \<in> set (limitedLoop document t i acc). P r)"
proof (induction document t i acc rule: limitedLoop.induct)
  case (1 document t i ranges)
  note step = "1.prems"(1) and acc = "1.prems"(2)
  show ?case
  proof (cases "i < length t")
    case False
    then show ?thesis using acc by (subst limitedLoop.simps) auto
  next
    case run: True
    show ?thesis
    proof (cases "t ! i = DQ")
      case False
      have "limitedLoop document t i ranges
            = limitedLoop document t (i + 1) ranges"
        using run False by (subst limitedLoop.simps) simp
      then show ?thesis using "1.IH"(3) [OF run False step acc] by (simp only:)
    next
      case quote: True
      show ?thesis
      proof (cases "extractSingleStringRange document t i")
        case None
        have "limitedLoop document t i ranges
              = limitedLoop document t (i + 1) ranges"
          using run quote None by (subst limitedLoop.simps) simp
        then show ?thesis using "1.IH"(1) [OF run quote None step acc] by (simp only:)
      next
        case (Some res)
        obtain r nx where res: "res = (r, nx)" by (cases res)
        have "limitedLoop document t i ranges
              = limitedLoop document t nx (ranges @ [r])"
          using run quote Some res by (subst limitedLoop.simps) simp
        moreover have "\<forall>x \<in> set (ranges @ [r]). P x"
          using acc step [of i r nx] Some res by simp
        ultimately show ?thesis
          using "1.IH"(2) [OF run quote Some res [symmetric] step] by (simp only:)
      qed
    qed
  qed
qed

lemma parse_spans:
  assumes "r \<in> set (stringRanges (parseJsonSafely document))"
  shows "\<exists>s e. s < e \<and> e < length (getText document) \<and> getText document ! s = DQ
           \<and> getText document ! e = DQ
           \<and> start r = positionAt document s \<and> end' r = positionAt document (e + 1)
           \<and> content r = substring (getText document) (s + 1) e
           \<and> (hasNewlines r \<longleftrightarrow> containsNewlines (content r))"
proof -
  let ?t = "getText document"
  let ?P = "\<lambda>r. \<exists>s e. s < e \<and> e < length ?t \<and> ?t ! s = DQ \<and> ?t ! e = DQ
           \<and> start r = positionAt document s \<and> end' r = positionAt document (e + 1)
           \<and> content r = substring ?t (s + 1) e
           \<and> (hasNewlines r \<longleftrightarrow> containsNewlines (content r))"
  have whole: "\<forall>r \<in> set (extractLoop document ?t 0 0 []). ?P r"
  proof (rule extractLoop_all)
    fix i r nx
    assume "extractSingleStringRange document ?t i = Some (r, nx)"
    then show "?P r" by (rule extractSingle_span [where n = "length ?t"]) simp
  qed simp
  have cut: "\<forall>r \<in> set (limitedLoop document (substring ?t 0 maxFileSize) 0 []). ?P r"
  proof (rule limitedLoop_all)
    fix i r nx
    assume "extractSingleStringRange document (substring ?t 0 maxFileSize) i = Some (r, nx)"
    then show "?P r"
      by (rule extractSingle_span [where n = maxFileSize]) (simp add: substring_def)
  qed simp
  from assms whole cut show ?thesis
    by (auto simp: parseJsonSafely_def Let_def extractStringRangesFromValidJson_def
                   extractStringRangesWithLimits_def split: if_splits)
qed

section \<open>The scenario document, scanned\<close>

lemmas scan_defs =
  parseJsonSafely_def JSON_parse_def extractStringRangesFromValidJson_def maxFileSize_def
  maxStrings_def extractLoop.simps extractSingleStringRange_def findStringEnd.simps substring_def
  containsNewlines_def findNewlineEscapeSequences_def findNewlineLoop.simps positionAt_def
  isWhitespace_def startValue_def afterValue_def isControl_def accepting_def isDigit_def
  isValidEscapeSequence_def

lemma scenario_parse:
  "parseJsonSafely scenarioDoc =
     \<lparr>isValid = True,
      stringRanges = [StringRange (Position 0 1) (Position 0 4) ''a'' False, scenarioSpan]\<rparr>"
  by (simp add: scenarioDoc_def scenarioText_def scenarioSpan_def scan_defs)

lemma scenario_inside: "getStringRangeAtPosition scenarioDoc (Position 0 7) = Some scenarioSpan"
  by (simp add: getStringRangeAtPosition_def scenario_parse isPositionInRange_def
        isAfterOrEqual_def isBefore_def scenarioSpan_def)

lemma twoLine_parse:
  "parseJsonSafely twoLineDoc =
     \<lparr>isValid = True,
      stringRanges = [StringRange (Position 0 1) (Position 0 4) ''a'' False, scenarioSpan,
                      StringRange (Position 1 0) (Position 1 3) ''b'' False]\<rparr>"
  by (simp add: twoLineDoc_def scenarioSpan_def scan_defs)

lemma twoLine_fragment:
  "getTextInRange twoLineDoc (Range (Position 0 7) (Position 1 0))
   = [CHR ''x'', BSL, CHR ''n'', CHR ''y'', DQ, CHR '','', LF]"
  by (simp add: getTextInRange_def offsetAt_def twoLineDoc_def substring_def)

lemma escaped_parse:
  "parseJsonSafely escapedDoc =
     \<lparr>isValid = True,
      stringRanges = [StringRange (Position 0 1) (Position 0 4) ''a'' False,
                      StringRange (Position 0 6) (Position 0 13)
                        [CHR ''x'', BSL, BSL, CHR ''n'', CHR ''y''] False]\<rparr>"
  by (simp add: escapedDoc_def scan_defs)

section \<open>The content transformations\<close>

lemma replace_roundtrip: "LF \<notin> set f \<Longrightarrow> replaceLineBreaks (replaceEscapePairs f) = f"
  by (induction f rule: replaceEscapePairs.induct) auto

lemma replaceLineBreaks_no_LF: "LF \<notin> set (replaceLineBreaks s)"
  by (induction s) auto

section \<open>Positions, continued\<close>

lemma positionAt_le:
  assumes "a \<le> b" and "b \<le> length (getText document)"
  shows "isAfterOrEqual (positionAt document b) (positionAt document a)"
proof (cases "a = b")
  case True
  then show ?thesis by (simp add: isAfterOrEqual_def isBefore_def)
next
  case False
  with assms have "isBefore (positionAt document a) (positionAt document b)"
    by (intro positionAt_mono) auto
  then show ?thesis by (auto simp: isAfterOrEqual_def isBefore_def)
qed

section \<open>The occurrences and the loop of the actual-to-visual mapping\<close>

lemma detailedLoop_endOffset:
  "(\<forall>occ \<in> set acc. endOffset occ = offset occ + 2) \<Longrightarrow>
   (\<forall>occ \<in> set (detailedLoop document sr a b i k acc). endOffset occ = offset occ + 2)"
proof (induction document sr a b i k acc rule: detailedLoop.induct)
  case (1 document sr a b i k acc)
  show ?case
    using "1.prems" "1.IH"
    by (subst detailedLoop.simps) (auto simp: Let_def split: if_splits)
qed

lemma occurrences_endOffset:
  "occ \<in> set (getDetailedNewlinePositions document) \<Longrightarrow> endOffset occ = offset occ + 2"
  using detailedLoop_endOffset [of "[]"]
  by (auto simp: getDetailedNewlinePositions_def findDetailedNewlinePositionsInString_def Let_def
           split: if_splits)

lemma actualToVisualLoop_filter:
  "actualToVisualLoop target occs l c k =
     (let ended = filter (\<lambda>occ. offset occ + 2 \<le> target) occs
      in (l + length ended,
          if ended = [] then c else target - (offset (last ended) + 2),
          k + length (filter (\<lambda>occ. offset occ < target) occs)))"
proof (induction occs arbitrary: l c k)
  case Nil
  show ?case by simp
next
  case (Cons occ occs)
  show ?case by (simp add: Cons.IH Let_def)
qed

lemma occurrencesEndedBy_code:
  "occurrencesEndedBy document target =
     filter (\<lambda>occ. offset occ + 2 \<le> target) (getDetailedNewlinePositions document)"
  unfolding occurrencesEndedBy_def
  by (rule filter_cong) (auto dest: occurrences_endOffset)

lemmas detail_defs =
  getDetailedNewlinePositions_def findDetailedNewlinePositionsInString_def detailedLoop.simps
  offsetAt_def isRealNewlineEscape_def substring_def positionAt_def

lemma scenario_getText:
  "getText scenarioDoc = ''{\"a\": \"x'' @ [BSL, CHR ''n''] @ ''y\"}''"
  by (simp add: scenarioDoc_def scenarioText_def)

lemma multiline_getText:
  "getText multilineDoc = ''{\<newline>\"a\": \"x'' @ [BSL, CHR ''n''] @ ''y\"}''"
  by (simp add: multilineDoc_def)

lemma scenario_occurrences:
  "getDetailedNewlinePositions scenarioDoc =
     [DetailedNewlinePosition (Position 0 8) (Position 0 10) scenarioSpan 8 10 0 ''x'' ''y'']"
  by (simp add: scenario_parse scenarioSpan_def detail_defs scenario_getText)

lemma multiline_parse:
  "parseJsonSafely multilineDoc =
     \<lparr>isValid = True,
      stringRanges = [StringRange (Position 1 0) (Position 1 3) ''a'' False,
                      StringRange (Position 1 5) (Position 1 11)
                        [CHR ''x'', BSL, CHR ''n'', CHR ''y''] True]\<rparr>"
  by (simp add: multilineDoc_def scan_defs)

lemma multiline_occurrences:
  "getDetailedNewlinePositions multilineDoc =
     [DetailedNewlinePosition (Position 1 7) (Position 1 9)
        (StringRange (Position 1 5) (Position 1 11) [CHR ''x'', BSL, CHR ''n'', CHR ''y''] True)
        9 11 0 ''x'' ''y'']"
  by (simp add: multiline_parse detail_defs multiline_getText)

lemmas visual_defs =
  transformVisualToActual_def calculateVisualPositionForNewline_def calculateVisualPosition_def
  countNewlinesInString_def findNewlineEscapeSequences_def findNewlineLoop.simps

section \<open>The change handler\<close>

lemma ensureDocumentState_keeps [simp]:
  "isProcessingEdit (ensureDocumentState document es) = isProcessingEdit es"
  "decorationManager (ensureDocumentState document es) = decorationManager es"
  by (simp_all add: ensureDocumentState_def initializeDocumentState_def)

lemma ensureDocumentState_tracks:
  "isJsonDocument document \<Longrightarrow> documentStates (ensureDocumentState document es) (uri document) \<noteq> None"
  by (simp add: ensureDocumentState_def initializeDocumentState_def)

lemma processContentChange_keeps:
  "documentStates (fst (processContentChange document change es)) = documentStates es"
  "decorationManager (fst (processContentChange document change es)) = decorationManager es"
  by (simp_all add: processContentChange_def handleDecoratedAreaEdit_def
        convertLineBreaksToEscapeSequences_def Let_def split: option.splits)

lemma processContentChanges_keeps:
  "documentStates (fst (processContentChanges document changes es)) = documentStates es
   \<and> decorationManager (fst (processContentChanges document changes es)) = decorationManager es"
proof (induction changes arbitrary: es)
  case Nil
  show ?case by simp
next
  case (Cons change changes)
  show ?case
    using Cons.IH [of "fst (processContentChange document change es)"]
    by (simp add: split_beta Let_def processContentChange_keeps)
qed

lemma updateDocumentState_tracks:
  "documentStates (updateDocumentState document es) (uri document) \<noteq> None"
  by (simp add: updateDocumentState_def initializeDocumentState_def split: option.splits)

lemma updateDocumentState_keeps [simp]:
  "isProcessingEdit (updateDocumentState document es) = isProcessingEdit es"
  by (simp add: updateDocumentState_def initializeDocumentState_def split: option.splits)

lemma handler_open:
  assumes "\<not> isProcessingEdit es" and "isJsonDocument document"
    and "isValid (parseJsonSafely document)"
  shows "snd (onDidChangeTextDocument activeEditor (TextDocumentChangeEvent document changes) es)
         = snd (processContentChanges document changes (ensureDocumentState document es))"
    and "isProcessingEdit
           (fst (onDidChangeTextDocument activeEditor (TextDocumentChangeEvent document changes) es))
         = isProcessingEdit
             (fst (processContentChanges document changes (ensureDocumentState document es)))"
    and "documentStates
           (fst (onDidChangeTextDocument activeEditor (TextDocumentChangeEvent document changes) es))
           (uri document) \<noteq> None"
  using assms
  by (simp_all add: onDidChangeTextDocument_def Let_def split_beta updateDocumentState_tracks)

lemma decorated_manager:
  "decorationManager decoratedSynchronizer =
     \<lparr>currentDecorations = [NewlineDecoration (Range (Position 0 8) (Position 0 10)) [LF] True],
      isEnabled = True\<rparr>"
  by (simp add: decoratedSynchronizer_def freshSynchronizer_def applyDecorations_def
        scenario_occurrences createDecorationForNewline_def newRange_def isBefore_def)

lemma scenario_json: "isJsonDocument scenarioDoc"
  by (simp add: isJsonDocument_def scenarioDoc_def)

lemma scenario_at:
  "getStringRangeAtPosition scenarioDoc (Position 0 8) = Some scenarioSpan"
  by (simp add: getStringRangeAtPosition_def scenario_parse isPositionInRange_def
        isAfterOrEqual_def isBefore_def scenarioSpan_def)

lemma invalid_parse:
  "\<not> JSON_parse (getText document) \<Longrightarrow>
   parseJsonSafely document = \<lparr>isValid = False, stringRanges = []\<rparr>"
  by (simp add: parseJsonSafely_def)

section \<open>The scanner follows the recogniser\<close>

text \<open>
  On the text of a valid document the scanner opens a range exactly where the recogniser
  enters a string literal and closes it where the recogniser leaves it; when the text has
  been cut at \<open>maxFileSize\<close> inside a string literal, nothing is found after the cut.
\<close>

lemma inStringAt_ex:
  "inStringAt text q \<longleftrightarrow> (\<exists>s st. stateAt text q = Some (s, st) \<and> inString s)"
  by (auto simp: inStringAt_def split: option.splits)

lemma outsideAt_ex:
  "outsideAt text i \<longleftrightarrow> (\<exists>s st. stateAt text i = Some (s, st) \<and> outside s)"
  by (auto simp: outsideAt_def split: option.splits)

lemma parserAfter_append:
  "parserAfter cfg (xs @ ys) =
     (case parserAfter cfg xs of None \<Rightarrow> None | Some cfg' \<Rightarrow> parserAfter cfg' ys)"
  by (induction xs arbitrary: cfg) (auto split: option.splits)

lemma parserRun_after:
  "parserRun s st text \<longleftrightarrow>
     (\<exists>s'. parserAfter (s, st) text = Some (s', []) \<and> accepting s')"
  by (induction "text" arbitrary: s st) (auto split: option.splits)

lemma stateAt_Suc:
  "i < length text \<Longrightarrow>
   stateAt text (Suc i) =
     (case stateAt text i of None \<Rightarrow> None | Some cfg \<Rightarrow> parserStep (fst cfg) (snd cfg) (text ! i))"
  by (simp add: stateAt_def take_Suc_conv_app_nth parserAfter_append split: option.splits)

lemma valid_final:
  "JSON_parse text \<Longrightarrow> \<exists>s. stateAt text (length text) = Some (s, []) \<and> accepting s"
  by (simp add: JSON_parse_def parserRun_after stateAt_def)

lemma valid_prefix:
  assumes "JSON_parse text" and "i \<le> length text"
  shows "stateAt text i \<noteq> None"
proof -
  from assms(1) obtain s where "parserAfter (ExpectValue, []) text = Some (s, [])"
    by (auto simp: JSON_parse_def parserRun_after)
  then have "parserAfter (ExpectValue, []) (take i text @ drop i text) = Some (s, [])" by simp
  then show ?thesis
    unfolding parserAfter_append stateAt_def by (auto split: option.splits)
qed

lemma valid_step:
  assumes "JSON_parse text" and "i < length text" and "stateAt text i = Some (s, st)"
  shows "\<exists>s' st'. parserStep s st (text ! i) = Some (s', st') \<and> stateAt text (Suc i) = Some (s', st')"
proof -
  from valid_prefix [OF assms(1), of "Suc i"] assms(2) have "stateAt text (Suc i) \<noteq> None" by simp
  then show ?thesis using assms(2,3) by (auto simp: stateAt_Suc)
qed

lemma step_outside_other:
  assumes "outside s" and "c \<noteq> DQ" and "parserStep s st c = Some (s', st')"
  shows "outside s'"
  using assms
  by (cases s) (auto simp: startValue_def afterValue_def split: if_splits list.splits container.splits)

lemma step_outside_quote:
  assumes "outside s" and "parserStep s st DQ = Some (s', st')"
  shows "\<exists>key. s' = InString key \<and> st' = st"
  using assms
  by (cases s) (auto simp: startValue_def afterValue_def isWhitespace_def isDigit_def
                     split: if_splits list.splits container.splits)

lemma step_closed_quote: "parserStep (closed key) st DQ = None"
  by (simp add: closed_def afterValue_def isWhitespace_def)

lemma closed_outside: "outside (closed key)"
  by (simp add: closed_def)

lemma accepting_not_inString: "accepting s \<Longrightarrow> \<not> inString s"
  by (cases s) (auto simp: accepting_def)

lemma valid_inString_lt:
  assumes "JSON_parse text" and "inStringAt text j" and "j \<le> length text"
  shows "j < length text"
proof (rule ccontr)
  assume "\<not> j < length text"
  with assms(3) have "j = length text" by simp
  with valid_final [OF assms(1)] assms(2) accepting_not_inString show False
    by (auto simp: inStringAt_ex)
qed

lemma not_control [simp]:
  "\<not> isControl BSL" "\<not> isControl DQ" "\<not> isControl (CHR ''u'')" "isControl LF"
  by (simp_all add: isControl_def)

lemma hex_not_control: "isHexDigit c \<Longrightarrow> \<not> isControl c"
  by (auto simp: isHexDigit_def isControl_def)

lemma hex_not_special: "isHexDigit c \<Longrightarrow> c \<noteq> DQ \<and> c \<noteq> BSL"
  by (auto simp: isHexDigit_def)

lemma escape_not_control: "isValidEscapeSequence c \<Longrightarrow> \<not> isControl c"
  by (auto simp: isValidEscapeSequence_def isControl_def)

lemma string_step:
  assumes "JSON_parse text" and "stateAt text j = Some (InString key, st)" and "j < length text"
  shows "(text ! j = DQ \<longrightarrow> stateAt text (Suc j) = Some (closed key, st))
       \<and> (text ! j = BSL \<longrightarrow> stateAt text (Suc j) = Some (InEscape key, st))
       \<and> (text ! j \<noteq> DQ \<and> text ! j \<noteq> BSL \<longrightarrow>
            \<not> isControl (text ! j) \<and> stateAt text (Suc j) = Some (InString key, st))"
  using valid_step [OF assms(1,3,2)] by (auto simp: closed_def split: if_splits)

lemma escape_step:
  assumes "JSON_parse text" and "stateAt text j = Some (InEscape key, st)" and "j < length text"
  shows "(text ! j = CHR ''u'' \<longrightarrow> stateAt text (Suc j) = Some (InHex key 4, st))
       \<and> (text ! j \<noteq> CHR ''u'' \<longrightarrow>
            isValidEscapeSequence (text ! j) \<and> stateAt text (Suc j) = Some (InString key, st))"
  using valid_step [OF assms(1,3,2)] by (auto simp: isValidEscapeSequence_def split: if_splits)

lemma hex_step:
  assumes "JSON_parse text" and "stateAt text j = Some (InHex key m, st)"
  shows "j < length text \<and> isHexDigit (text ! j)
       \<and> stateAt text (Suc j) = Some (if m \<le> 1 then InString key else InHex key (m - 1), st)"
proof -
  have "j \<le> length text"
  proof (rule ccontr)
    assume "\<not> j \<le> length text"
    then have "stateAt text j = stateAt text (length text)" by (simp add: stateAt_def)
    with valid_final [OF assms(1)] assms(2) show False by (auto simp: accepting_def)
  qed
  then have lt: "j < length text"
    using valid_inString_lt [OF assms(1)] assms(2) by (auto simp: inStringAt_ex)
  with valid_step [OF assms(1) lt assms(2)] show ?thesis by (auto split: if_splits)
qed

lemma unicode_steps:
  assumes "JSON_parse text" and "stateAt text j = Some (InHex key 4, st)"
  shows "j + 3 < length text
       \<and> isHexDigit (text ! j) \<and> isHexDigit (text ! (j + 1))
       \<and> isHexDigit (text ! (j + 2)) \<and> isHexDigit (text ! (j + 3))
       \<and> inStringAt text (j + 1) \<and> inStringAt text (j + 2) \<and> inStringAt text (j + 3)
       \<and> stateAt text (j + 4) = Some (InString key, st)"
proof -
  from hex_step [OF assms] have 0: "isHexDigit (text ! j)"
    "stateAt text (Suc j) = Some (InHex key 3, st)" by simp_all
  from hex_step [OF assms(1) 0(2)] have 1: "isHexDigit (text ! Suc j)"
    "stateAt text (Suc (Suc j)) = Some (InHex key 2, st)" by simp_all
  from hex_step [OF assms(1) 1(2)] have 2: "isHexDigit (text ! Suc (Suc j))"
    "stateAt text (Suc (Suc (Suc j))) = Some (InHex key 1, st)" by simp_all
  from hex_step [OF assms(1) 2(2)] have 3: "Suc (Suc (Suc j)) < length text"
    "isHexDigit (text ! Suc (Suc (Suc j)))"
    "stateAt text (Suc (Suc (Suc (Suc j)))) = Some (InString key, st)" by simp_all
  have e: "j + 1 = Suc j" "j + 2 = Suc (Suc j)" "j + 3 = Suc (Suc (Suc j))"
    "j + 4 = Suc (Suc (Suc (Suc j)))" by simp_all
  show ?thesis unfolding e inStringAt_ex using 0 1 2 3 by simp
qed

lemma substring_four:
  "i + 3 < length t \<Longrightarrow> substring t i (i + 4) = [t ! i, t ! (i + 1), t ! (i + 2), t ! (i + 3)]"
proof -
  assume a: "i + 3 < length t"
  have "drop i t = t ! i # drop (Suc i) t"
    and "drop (Suc i) t = t ! Suc i # drop (Suc (Suc i)) t"
    and "drop (Suc (Suc i)) t = t ! Suc (Suc i) # drop (Suc (Suc (Suc i))) t"
    and "drop (Suc (Suc (Suc i))) t = t ! Suc (Suc (Suc i)) # drop (Suc (Suc (Suc (Suc i)))) t"
    using a by (simp_all add: Cons_nth_drop_Suc)
  then have "take 4 (drop i t) = [t ! i, t ! Suc i, t ! Suc (Suc i), t ! Suc (Suc (Suc i))]"
    by (simp add: numeral_eq_Suc)
  then show ?thesis by (simp add: substring_def numeral_eq_Suc)
qed

lemma findStringEnd_none:
  "(\<And>q. i \<le> q \<Longrightarrow> q < length t \<Longrightarrow> t ! q \<noteq> DQ \<and> t ! q \<noteq> BSL) \<Longrightarrow> findStringEnd t i = None"
proof (induction t i rule: findStringEnd.induct)
  case (1 t i)
  show ?case
  proof (cases "i < length t")
    case False
    then show ?thesis by (subst findStringEnd.simps) simp
  next
    case True
    with "1.prems" [of i] have here: "t ! i \<noteq> DQ" "t ! i \<noteq> BSL" by simp_all
    have "findStringEnd t (i + 1) = None"
      using "1.IH"(5) [OF True here(2) here(1)] "1.prems" by simp
    then show ?thesis using True here by (subst findStringEnd.simps) simp
  qed
qed

lemma unicode_escape_facts:
  assumes valid: "JSON_parse text" and st: "stateAt text j = Some (InString key, st)"
    and jl: "j < length text" and b: "text ! j = BSL" and u: "text ! (j + 1) = CHR ''u''"
  shows "j + 5 < length text"
    and "isHexDigit (text ! (j + 2))" and "isHexDigit (text ! (j + 3))"
    and "isHexDigit (text ! (j + 4))" and "isHexDigit (text ! (j + 5))"
    and "stateAt text (j + 6) = Some (InString key, st)"
    and "\<And>d. d < 6 \<Longrightarrow> inStringAt text (j + d)"
    and "\<And>d. d < 6 \<Longrightarrow> \<not> isControl (text ! (j + d))"
proof -
  have s1: "stateAt text (Suc j) = Some (InEscape key, st)"
    using string_step [OF valid st jl] b by simp
  have in0: "inStringAt text j" using st by (simp add: inStringAt_ex)
  have in1: "inStringAt text (Suc j)" using s1 by (simp add: inStringAt_ex)
  have j1l: "Suc j < length text" using valid_inString_lt [OF valid in1] jl by simp
  have s2: "stateAt text (Suc (Suc j)) = Some (InHex key 4, st)"
    using escape_step [OF valid s1 j1l] u by simp
  have in2: "inStringAt text (Suc (Suc j))" using s2 by (simp add: inStringAt_ex)
  have e: "Suc (Suc j) + 3 = j + 5" "Suc (Suc j) + 1 = j + 3" "Suc (Suc j) + 2 = j + 4"
    "Suc (Suc j) + 4 = j + 6" "Suc (Suc j) = j + 2" by simp_all
  note us = unicode_steps [OF valid s2]
  show l: "j + 5 < length text" using us e(1) by metis
  show h2: "isHexDigit (text ! (j + 2))" using us e(5) by metis
  show h3: "isHexDigit (text ! (j + 3))" using us e(2) by metis
  show h4: "isHexDigit (text ! (j + 4))" using us e(3) by metis
  show h5: "isHexDigit (text ! (j + 5))" using us e(1) by metis
  show "stateAt text (j + 6) = Some (InString key, st)" using us e(4) by metis
  have i3: "inStringAt text (j + 3)" using us e(2) by metis
  have i4: "inStringAt text (j + 4)" using us e(3) by metis
  have i5: "inStringAt text (j + 5)" using us e(1) by metis
  have i1: "inStringAt text (j + 1)" using in1 by simp
  have i2: "inStringAt text (j + 2)" using in2 by simp
  have c0: "\<not> isControl (text ! (j + 0))" using b by simp
  have c1: "\<not> isControl (text ! (j + 1))" using u by simp
  { fix d :: nat assume "d < 6"
    then consider "d = 0" | "d = 1" | "d = 2" | "d = 3" | "d = 4" | "d = 5" by linarith
    then show "inStringAt text (j + d)"
    proof cases
      case 1 then show ?thesis using in0 by simp
    next
      case 2 then show ?thesis using i1 by simp
    next
      case 3 then show ?thesis using i2 by simp
    next
      case 4 then show ?thesis using i3 by simp
    next
      case 5 then show ?thesis using i4 by simp
    next
      case 6 then show ?thesis using i5 by simp
    qed }
  { fix d :: nat assume "d < 6"
    then consider "d = 0" | "d = 1" | "d = 2" | "d = 3" | "d = 4" | "d = 5" by linarith
    then show "\<not> isControl (text ! (j + d))"
    proof cases
      case 1 then show ?thesis using c0 by simp
    next
      case 2 then show ?thesis using c1 by simp
    next
      case 3 then show ?thesis using hex_not_control [OF h2] by simp
    next
      case 4 then show ?thesis using hex_not_control [OF h3] by simp
    next
      case 5 then show ?thesis using hex_not_control [OF h4] by simp
    next
      case 6 then show ?thesis using hex_not_control [OF h5] by simp
    qed }
qed

lemma simple_escape_facts:
  assumes valid: "JSON_parse text" and st: "stateAt text j = Some (InString key, st)"
    and jl: "j < length text" and b: "text ! j = BSL" and j1: "j + 1 < length text"
    and nu: "text ! (j + 1) \<noteq> CHR ''u''"
  shows "stateAt text (j + 2) = Some (InString key, st)"
    and "\<And>d. d < 2 \<Longrightarrow> inStringAt text (j + d)"
    and "\<And>d. d < 2 \<Longrightarrow> \<not> isControl (text ! (j + d))"
proof -
  have s1: "stateAt text (Suc j) = Some (InEscape key, st)"
    using string_step [OF valid st jl] b by simp
  have in0: "inStringAt text j" using st by (simp add: inStringAt_ex)
  have in1: "inStringAt text (Suc j)" using s1 by (simp add: inStringAt_ex)
  have j1l: "Suc j < length text" using j1 by simp
  from escape_step [OF valid s1 j1l] nu
  have ok: "isValidEscapeSequence (text ! Suc j)"
    and s2: "stateAt text (Suc (Suc j)) = Some (InString key, st)" by simp_all
  show "stateAt text (j + 2) = Some (InString key, st)" using s2 by simp
  { fix d :: nat assume "d < 2"
    then consider "d = 0" | "d = 1" by linarith
    then show "inStringAt text (j + d)" using in0 in1 by cases simp_all }
  { fix d :: nat assume "d < 2"
    then consider "d = 0" | "d = 1" by linarith
    then show "\<not> isControl (text ! (j + d))"
      using b escape_not_control [OF ok] by cases simp_all }
qed

lemma escape_needs_next:
  assumes valid: "JSON_parse text" and st: "stateAt text j = Some (InString key, st)"
    and jl: "j < length text" and b: "text ! j = BSL"
  shows "j + 1 < length text" and "inStringAt text (j + 1)"
proof -
  have s1: "stateAt text (Suc j) = Some (InEscape key, st)"
    using string_step [OF valid st jl] b by simp
  then show in1: "inStringAt text (j + 1)" by (simp add: inStringAt_ex)
  from valid_inString_lt [OF valid in1] jl show "j + 1 < length text" by simp
qed

lemma between:
  assumes "\<And>d. d < k \<Longrightarrow> P (j + d)" and "\<forall>q. j + k \<le> q \<and> q \<le> L \<longrightarrow> P q"
  shows "\<forall>q. j \<le> q \<and> q \<le> L \<longrightarrow> P (q::nat)"
proof (intro allI impI)
  fix q assume q: "j \<le> q \<and> q \<le> L"
  show "P q"
  proof (cases "q < j + k")
    case True
    with q have "q - j < k \<and> q = j + (q - j)" by linarith
    with assms(1) [of "q - j"] show ?thesis by simp
  next
    case False
    with q assms(2) show ?thesis by simp
  qed
qed

lemma below:
  assumes "\<And>d. d < k \<Longrightarrow> P (j + d)" and "\<forall>m. j + k \<le> m \<and> m < e \<longrightarrow> P m"
  shows "\<forall>m. j \<le> m \<and> m < e \<longrightarrow> P (m::nat)"
proof (intro allI impI)
  fix m assume m: "j \<le> m \<and> m < e"
  show "P m"
  proof (cases "m < j + k")
    case True
    with m have "m - j < k \<and> m = j + (m - j)" by linarith
    with assms(1) [of "m - j"] show ?thesis by simp
  next
    case False
    with m assms(2) show ?thesis by simp
  qed
qed

lemma scanResult_skip:
  assumes call: "findStringEnd t j = findStringEnd t (j + k)"
    and ins: "\<And>d. d < k \<Longrightarrow> inStringAt text (j + d)"
    and ctl: "\<And>d. d < k \<Longrightarrow> \<not> isControl (text ! (j + d))"
    and rest: "scanResult text t (j + k) key st"
  shows "scanResult text t j key st"
proof -
  from rest have
    "(findStringEnd t (j + k) = None \<and> length t < length text
        \<and> (\<forall>q. j + k \<le> q \<and> q \<le> length t \<longrightarrow> inStringAt text q))
     \<or> (\<exists>e. findStringEnd t (j + k) = Some e \<and> j + k \<le> e \<and> e < length t
            \<and> stateAt text (Suc e) = Some (closed key, st)
            \<and> (\<forall>m. j + k \<le> m \<and> m < e \<longrightarrow> \<not> isControl (text ! m))
            \<and> (\<forall>q. j + k \<le> q \<and> q \<le> e \<longrightarrow> inStringAt text q))"
    by (simp only: scanResult_def)
  then show ?thesis
  proof (elim disjE exE conjE)
    assume none: "findStringEnd t (j + k) = None" "length t < length text"
      "\<forall>q. j + k \<le> q \<and> q \<le> length t \<longrightarrow> inStringAt text q"
    have "\<forall>q. j \<le> q \<and> q \<le> length t \<longrightarrow> inStringAt text q"
      using ins none(3) by (rule between)
    then have "findStringEnd t j = None \<and> length t < length text
        \<and> (\<forall>q. j \<le> q \<and> q \<le> length t \<longrightarrow> inStringAt text q)"
      using none(1,2) call by simp
    then show ?thesis unfolding scanResult_def by (rule disjI1)
  next
    fix e
    assume some: "findStringEnd t (j + k) = Some e" "j + k \<le> e" "e < length t"
      "stateAt text (Suc e) = Some (closed key, st)"
      "\<forall>m. j + k \<le> m \<and> m < e \<longrightarrow> \<not> isControl (text ! m)"
      "\<forall>q. j + k \<le> q \<and> q \<le> e \<longrightarrow> inStringAt text q"
    have "\<forall>m. j \<le> m \<and> m < e \<longrightarrow> \<not> isControl (text ! m)"
      using ctl some(5) by (rule below)
    moreover have "\<forall>q. j \<le> q \<and> q \<le> e \<longrightarrow> inStringAt text q"
      using ins some(6) by (rule between)
    moreover have "j \<le> e" using some(2) by simp
    ultimately have "findStringEnd t j = Some e \<and> j \<le> e \<and> e < length t
            \<and> stateAt text (Suc e) = Some (closed key, st)
            \<and> (\<forall>m. j \<le> m \<and> m < e \<longrightarrow> \<not> isControl (text ! m))
            \<and> (\<forall>q. j \<le> q \<and> q \<le> e \<longrightarrow> inStringAt text q)"
      using some(1,3,4) call by simp
    then have "\<exists>e. findStringEnd t j = Some e \<and> j \<le> e \<and> e < length t
            \<and> stateAt text (Suc e) = Some (closed key, st)
            \<and> (\<forall>m. j \<le> m \<and> m < e \<longrightarrow> \<not> isControl (text ! m))
            \<and> (\<forall>q. j \<le> q \<and> q \<le> e \<longrightarrow> inStringAt text q)" by (rule exI)
    then show ?thesis unfolding scanResult_def by (rule disjI2)
  qed
qed

lemma scanResult_cut:
  assumes "findStringEnd t j = None" and "length t < length text"
    and "\<And>q. j \<le> q \<Longrightarrow> q \<le> length t \<Longrightarrow> inStringAt text q"
  shows "scanResult text t j key st"
proof -
  have "\<forall>q. j \<le> q \<and> q \<le> length t \<longrightarrow> inStringAt text q" using assms(3) by simp
  with assms(1,2) have "findStringEnd t j = None \<and> length t < length text
        \<and> (\<forall>q. j \<le> q \<and> q \<le> length t \<longrightarrow> inStringAt text q)" by simp
  then show ?thesis unfolding scanResult_def by (rule disjI1)
qed

lemma scanResult_found:
  assumes "findStringEnd t j = Some j" and "j < length t"
    and "stateAt text (Suc j) = Some (closed key, st)" and "inStringAt text j"
  shows "scanResult text t j key st"
proof -
  have "\<forall>q. j \<le> q \<and> q \<le> j \<longrightarrow> inStringAt text q"
  proof (intro allI impI)
    fix q assume "j \<le> q \<and> q \<le> j"
    then have "q = j" by simp
    with assms(4) show "inStringAt text q" by simp
  qed
  then have "findStringEnd t j = Some j \<and> j \<le> j \<and> j < length t
            \<and> stateAt text (Suc j) = Some (closed key, st)
            \<and> (\<forall>m. j \<le> m \<and> m < j \<longrightarrow> \<not> isControl (text ! m))
            \<and> (\<forall>q. j \<le> q \<and> q \<le> j \<longrightarrow> inStringAt text q)"
    using assms(1,2,3) by auto
  then have "\<exists>e. findStringEnd t j = Some e \<and> j \<le> e \<and> e < length t
            \<and> stateAt text (Suc e) = Some (closed key, st)
            \<and> (\<forall>m. j \<le> m \<and> m < e \<longrightarrow> \<not> isControl (text ! m))
            \<and> (\<forall>q. j \<le> q \<and> q \<le> e \<longrightarrow> inStringAt text q)" by (rule exI)
  then show ?thesis unfolding scanResult_def by (rule disjI2)
qed

lemma findStringEnd_aligned:
  assumes valid: "JSON_parse text"
  shows "t = take n text \<Longrightarrow> j \<le> length t \<Longrightarrow> stateAt text j = Some (InString key, st) \<Longrightarrow>
         scanResult text t j key st"
proof (induction t j rule: findStringEnd.induct)
  case (1 t j)
  note pre = "1.prems"(1) and le = "1.prems"(2) and st = "1.prems"(3)
  have here: "inStringAt text j" using st by (simp add: inStringAt_ex)
  have nth: "\<And>q. q < length t \<Longrightarrow> t ! q = text ! q" using pre by simp
  have len: "length t \<le> length text" using pre by simp
  show ?case
  proof (cases "j < length t")
    case False
    then have j: "j = length t" using le by simp
    have "findStringEnd t j = None" using False by (subst findStringEnd.simps) simp
    moreover have "length t < length text"
      using valid_inString_lt [OF valid here] len j by simp
    ultimately show ?thesis using j here by (intro scanResult_cut) auto
  next
    case lt: True
    then have jl: "j < length text" using len by simp
    have tj: "t ! j = text ! j" using nth [OF lt] .
    show ?thesis
    proof (cases "t ! j = BSL")
      case bsl: True
      then have b: "text ! j = BSL" using tj by simp
      note nx = escape_needs_next [OF valid st jl b]
      show ?thesis
      proof (cases "j + 1 < length t")
        case False
        then have e: "length t = j + 1" using lt by simp
        have "findStringEnd t j = None"
          using lt bsl False by (subst findStringEnd.simps) simp
        moreover have "inStringAt text q" if "j \<le> q" "q \<le> length t" for q
        proof -
          from that e consider "q = j" | "q = j + 1" by linarith
          then show ?thesis using here nx(2) by cases simp_all
        qed
        ultimately show ?thesis using e nx(1) by (intro scanResult_cut) auto
      next
        case lt1: True
        have tj1: "t ! (j + 1) = text ! (j + 1)" using nth [OF lt1] .
        show ?thesis
        proof (cases "t ! (j + 1) = CHR ''u''")
          case u: True
          then have u': "text ! (j + 1) = CHR ''u''" using tj1 by simp
          note uf = unicode_escape_facts [OF valid st jl b u']
          show ?thesis
          proof (cases "j + 5 < length t \<and> isValidUnicodeEscape (substring t (j + 2) (j + 6))")
            case six: True
            have call: "findStringEnd t j = findStringEnd t (j + 6)"
              using lt bsl lt1 u six by (subst findStringEnd.simps) simp
            from six have le6: "j + 6 \<le> length t" by simp
            have rest: "scanResult text t (j + 6) key st"
              using "1.IH"(1) [OF lt bsl lt1 u six pre le6 uf(6)] .
            show ?thesis using call uf(7) uf(8) rest by (rule scanResult_skip)
          next
            case cut: False
            have short: "\<not> j + 5 < length t"
            proof
              assume l5: "j + 5 < length t"
              then have "j + 2 + 3 < length t" by simp
              then have "substring t (j + 2) (j + 2 + 4)
                         = [t ! (j + 2), t ! (j + 2 + 1), t ! (j + 2 + 2), t ! (j + 2 + 3)]"
                by (rule substring_four)
              moreover have "j + 2 + 4 = j + 6" "j + 2 + 1 = j + 3" "j + 2 + 2 = j + 4"
                "j + 2 + 3 = j + 5" by simp_all
              ultimately have "substring t (j + 2) (j + 6)
                         = [t ! (j + 2), t ! (j + 3), t ! (j + 4), t ! (j + 5)]"
                by (simp only:)
              moreover have "t ! (j + 2) = text ! (j + 2)" "t ! (j + 3) = text ! (j + 3)"
                "t ! (j + 4) = text ! (j + 4)" "t ! (j + 5) = text ! (j + 5)"
                using l5 by (simp_all add: nth)
              ultimately have "isValidUnicodeEscape (substring t (j + 2) (j + 6))"
                using uf(2,3,4,5) by (simp add: isValidUnicodeEscape_def)
              with cut l5 show False by simp
            qed
            have call: "findStringEnd t j = findStringEnd t (j + 2)"
              using lt bsl lt1 u cut by (subst findStringEnd.simps) auto
            have "findStringEnd t (j + 2) = None"
            proof (rule findStringEnd_none)
              fix q assume q: "j + 2 \<le> q" "q < length t"
              with short consider "q = j + 2" | "q = j + 3" | "q = j + 4" by linarith
              then have "isHexDigit (text ! q)" using uf(2,3,4) by cases simp_all
              then show "t ! q \<noteq> DQ \<and> t ! q \<noteq> BSL"
                using hex_not_special nth [OF q(2)] by simp
            qed
            then have none: "findStringEnd t j = None" using call by simp
            have "inStringAt text q" if "j \<le> q" "q \<le> length t" for q
            proof -
              from that short have "q - j < 6 \<and> q = j + (q - j)" by linarith
              with uf(7) [of "q - j"] show ?thesis by simp
            qed
            moreover have "length t < length text" using short uf(1) by simp
            ultimately show ?thesis using none by (intro scanResult_cut) auto
          qed
        next
          case nu: False
          then have nu': "text ! (j + 1) \<noteq> CHR ''u''" using tj1 by simp
          have j1: "j + 1 < length text" using lt1 len by simp
          note sf = simple_escape_facts [OF valid st jl b j1 nu']
          have call: "findStringEnd t j = findStringEnd t (j + 2)"
            using lt bsl lt1 nu by (subst findStringEnd.simps) simp
          have le2: "j + 2 \<le> length t" using lt1 by simp
          have rest: "scanResult text t (j + 2) key st"
          proof (cases "isValidEscapeSequence (t ! (j + 1))")
            case True
            from "1.IH"(3) [OF lt bsl lt1 nu True pre le2 sf(1)] show ?thesis .
          next
            case False
            from "1.IH"(4) [OF lt bsl lt1 nu False pre le2 sf(1)] show ?thesis .
          qed
          show ?thesis using call sf(2) sf(3) rest by (rule scanResult_skip)
        qed
      qed
    next
      case nb: False
      then have nb': "text ! j \<noteq> BSL" using tj by simp
      note step = string_step [OF valid st jl]
      show ?thesis
      proof (cases "t ! j = DQ")
        case True
        then have "findStringEnd t j = Some j"
          using lt nb by (subst findStringEnd.simps) simp
        moreover have "stateAt text (Suc j) = Some (closed key, st)"
          using step True tj by simp
        ultimately show ?thesis using lt here by (intro scanResult_found)
      next
        case nq: False
        then have s1: "stateAt text (j + 1) = Some (InString key, st)"
          and c0: "\<not> isControl (text ! j)"
          using step nb' tj by simp_all
        have call: "findStringEnd t j = findStringEnd t (j + 1)"
          using lt nb nq by (subst findStringEnd.simps) simp
        have le1: "j + 1 \<le> length t" using lt by simp
        have rest: "scanResult text t (j + 1) key st"
          using "1.IH"(5) [OF lt nb nq pre le1 s1] .
        have ins: "\<And>d. d < 1 \<Longrightarrow> inStringAt text (j + d)" using here by simp
        have ctl: "\<And>d. d < 1 \<Longrightarrow> \<not> isControl (text ! (j + d))" using c0 by simp
        show ?thesis using call ins ctl rest by (rule scanResult_skip)
      qed
    qed
  qed
qed

lemma separated_append:
  "separated (xs @ [r]) \<longleftrightarrow> separated xs \<and> (\<forall>x \<in> set xs. isBefore (end' x) (start r))"
  by (induction xs) auto

lemma spanBefore_mono: "spanBefore document i r \<Longrightarrow> i \<le> k \<Longrightarrow> spanBefore document k r"
  unfolding spanBefore_def by (elim exE conjE, intro exI conjI) (assumption | simp)+

lemma inString_not_outside: "inString s \<Longrightarrow> \<not> outside s"
  by (cases s) auto

lemma cut_quote:
  assumes "inString s" and "parserStep s st DQ = Some (s', st')" and "inString s'"
  shows "\<exists>key. s' = InString key"
  using assms by (cases s) (auto simp: isHexDigit_def split: if_splits)

lemma extractSingle_some:
  "t ! i = DQ \<Longrightarrow> i < length t \<Longrightarrow> findStringEnd t (i + 1) = Some e \<Longrightarrow>
   extractSingleStringRange document t i =
     Some (StringRange (positionAt document i) (positionAt document (e + 1))
             (substring t (i + 1) e) (containsNewlines (substring t (i + 1) e)), e + 1)"
  by (simp add: extractSingleStringRange_def Let_def)

lemma extractSingle_none:
  "findStringEnd t (i + 1) = None \<Longrightarrow> extractSingleStringRange document t i = None"
  by (simp add: extractSingleStringRange_def)

lemma substring_members:
  assumes "c \<in> set (substring text a e)" and "a \<le> e" and "e \<le> length text"
  shows "\<exists>m. a \<le> m \<and> m < e \<and> c = text ! m"
proof -
  from assms(1,2) have "c \<in> set (take (e - a) (drop a text))" by (simp add: substring_def)
  then obtain k where k: "k < length (take (e - a) (drop a text))"
    "c = take (e - a) (drop a text) ! k" by (auto simp: in_set_conv_nth)
  then have "k < e - a" by simp
  moreover from this have "c = text ! (a + k)" using k(2) assms(3) by simp
  ultimately show ?thesis by (intro exI [of _ "a + k"]) auto
qed

lemma scan_skip:
  assumes valid: "JSON_parse (getText document)" and pre: "t = take n (getText document)"
    and inv: "scanInv document t i acc" and lt: "i < length t" and nq: "t ! i \<noteq> DQ"
  shows "scanInv document t (i + 1) acc"
proof -
  let ?text = "getText document"
  have il: "i < length ?text" using lt pre by simp
  have ti: "t ! i = ?text ! i" using lt pre by simp
  from inv have mode: "outsideAt ?text i \<or> cutFrom ?text t i"
    and spans: "\<forall>r \<in> set acc. spanBefore document i r" and sep: "separated acc"
    by (simp_all add: scanInv_def)
  have "outsideAt ?text (i + 1) \<or> cutFrom ?text t (i + 1)"
    using mode
  proof
    assume "outsideAt ?text i"
    then obtain s st where s: "stateAt ?text i = Some (s, st)" "outside s"
      by (auto simp: outsideAt_ex)
    from valid_step [OF valid il s(1)] obtain s' st' where
      s': "parserStep s st (?text ! i) = Some (s', st')" "stateAt ?text (Suc i) = Some (s', st')"
      by blast
    have "outside s'" using s(2) nq ti s'(1) by (intro step_outside_other [of s _ st s' st']) simp_all
    then have "outsideAt ?text (i + 1)" using s'(2) by (auto simp: outsideAt_ex)
    then show ?thesis ..
  next
    assume "cutFrom ?text t i"
    then have "cutFrom ?text t (i + 1)" by (simp add: cutFrom_def)
    then show ?thesis ..
  qed
  moreover have "\<forall>r \<in> set acc. spanBefore document (i + 1) r"
    using spans by (auto intro: spanBefore_mono)
  ultimately show ?thesis using sep by (simp add: scanInv_def)
qed

lemma scan_quote:
  assumes valid: "JSON_parse (getText document)" and pre: "t = take n (getText document)"
    and inv: "scanInv document t i acc" and lt: "i < length t" and q: "t ! i = DQ"
  shows "case extractSingleStringRange document t i of
           None \<Rightarrow> scanInv document t (i + 1) acc
         | Some (r, nx) \<Rightarrow> scanInv document t nx (acc @ [r])"
proof -
  let ?text = "getText document"
  have il: "i < length ?text" using lt pre by simp
  have len: "length t \<le> length ?text" using pre by simp
  have ti: "?text ! i = DQ" using lt pre q by simp
  from inv have mode: "outsideAt ?text i \<or> cutFrom ?text t i"
    and spans: "\<forall>r \<in> set acc. spanBefore document i r" and sep: "separated acc"
    by (simp_all add: scanInv_def)
  obtain s st where s: "stateAt ?text i = Some (s, st)"
    using valid_prefix [OF valid, of i] il by auto
  from valid_step [OF valid il s] ti obtain s' st' where
    s': "parserStep s st DQ = Some (s', st')" "stateAt ?text (Suc i) = Some (s', st')"
    by auto
  have "\<exists>key. s' = InString key"
    using mode
  proof
    assume "outsideAt ?text i"
    then have "outside s" using s by (simp add: outsideAt_ex)
    from step_outside_quote [OF this s'(1)] show ?thesis by blast
  next
    assume c: "cutFrom ?text t i"
    then have "inStringAt ?text i" "inStringAt ?text (Suc i)"
      using lt by (simp_all add: cutFrom_def)
    then have "inString s" "inString s'" using s s'(2) by (simp_all add: inStringAt_ex)
    with cut_quote [of s st s' st'] s'(1) show ?thesis by simp
  qed
  then obtain key where key: "stateAt ?text (i + 1) = Some (InString key, st')"
    using s'(2) by auto
  have le1: "i + 1 \<le> length t" using lt by simp
  from findStringEnd_aligned [OF valid pre le1 key]
  have "(findStringEnd t (i + 1) = None \<and> length t < length ?text
        \<and> (\<forall>q. i + 1 \<le> q \<and> q \<le> length t \<longrightarrow> inStringAt ?text q))
     \<or> (\<exists>e. findStringEnd t (i + 1) = Some e \<and> i + 1 \<le> e \<and> e < length t
            \<and> stateAt ?text (Suc e) = Some (closed key, st')
            \<and> (\<forall>m. i + 1 \<le> m \<and> m < e \<longrightarrow> \<not> isControl (?text ! m))
            \<and> (\<forall>q. i + 1 \<le> q \<and> q \<le> e \<longrightarrow> inStringAt ?text q))"
    by (simp only: scanResult_def)
  then show ?thesis
  proof (elim disjE exE conjE)
    assume none: "findStringEnd t (i + 1) = None"
      and cut: "\<forall>q. i + 1 \<le> q \<and> q \<le> length t \<longrightarrow> inStringAt ?text q"
    have "cutFrom ?text t (i + 1)" using cut by (simp add: cutFrom_def)
    moreover have "\<forall>r \<in> set acc. spanBefore document (i + 1) r"
      using spans by (auto intro: spanBefore_mono)
    ultimately have "scanInv document t (i + 1) acc" using sep by (simp add: scanInv_def)
    then show ?thesis using extractSingle_none [OF none, of document] by simp
  next
    fix e
    assume e: "findStringEnd t (i + 1) = Some e" "i + 1 \<le> e" "e < length t"
      and closed: "stateAt ?text (Suc e) = Some (closed key, st')"
      and ctl: "\<forall>m. i + 1 \<le> m \<and> m < e \<longrightarrow> \<not> isControl (?text ! m)"
      and ins: "\<forall>q. i + 1 \<le> q \<and> q \<le> e \<longrightarrow> inStringAt ?text q"
    let ?r = "StringRange (positionAt document i) (positionAt document (e + 1))
                (substring t (i + 1) e) (containsNewlines (substring t (i + 1) e))"
    have ex: "extractSingleStringRange document t i = Some (?r, e + 1)"
      using q lt e(1) by (rule extractSingle_some)
    have el: "e < length ?text" using e(3) len by simp
    have "t ! e = ?text ! e" using pre e(3) by simp
    then have te: "?text ! e = DQ" using findStringEnd_bounds [OF e(1)] by simp
    have sub: "substring t (i + 1) e = substring ?text (i + 1) e"
      using e pre by (auto simp: substring_def drop_take take_take min_def split: if_splits)
    have out: "outsideAt ?text (e + 1)"
      using closed closed_outside [of key] by (auto simp: outsideAt_ex)
    have noquote: "?text ! (e + 1) \<noteq> DQ" if "e + 1 < length ?text"
    proof
      assume "?text ! (e + 1) = DQ"
      with valid_step [OF valid _ closed] that step_closed_quote [of key st'] show False by simp
    qed
    have clean: "\<forall>c \<in> set (substring ?text (i + 1) e). \<not> isControl c"
    proof
      fix c assume "c \<in> set (substring ?text (i + 1) e)"
      from substring_members [OF this] e(2) el obtain m where
        "i + 1 \<le> m" "m < e" "c = ?text ! m" by auto
      with ctl show "\<not> isControl c" by simp
    qed
    have after: "\<not> inStringAt ?text (e + 1)"
      using closed by (simp add: inStringAt_ex closed_def)
    have atStart: "\<not> inStringAt ?text i"
      using mode
    proof
      assume "outsideAt ?text i"
      then show ?thesis using inString_not_outside by (auto simp: outsideAt_ex inStringAt_ex)
    next
      assume "cutFrom ?text t i"
      then have "inStringAt ?text (e + 1)" using e(2,3) by (simp add: cutFrom_def)
      with after show ?thesis by simp
    qed
    have "\<forall>q \<in> set [i + 1 ..< e + 1]. inStringAt ?text q"
    proof
      fix q assume "q \<in> set [i + 1 ..< e + 1]"
      then have "i + 1 \<le> q \<and> q \<le> e" by auto
      with ins show "inStringAt ?text q" by blast
    qed
    then have lit: "literalAt ?text i e"
      using atStart after by (simp add: literalAt_def)
    have new: "spanBefore document (e + 1) ?r"
      unfolding spanBefore_def
      using e(2) el ti te sub clean noquote lit
      by (intro exI [of _ i] exI [of _ e]) auto
    have old: "\<forall>r \<in> set acc. spanBefore document (e + 1) r"
      using spans e(2) by (auto intro: spanBefore_mono)
    have before: "\<forall>x \<in> set acc. isBefore (end' x) (start ?r)"
    proof
      fix x assume "x \<in> set acc"
      with spans have "spanBefore document i x" by simp
      then obtain ex where x: "end' x = positionAt document (ex + 1)" "ex + 1 \<le> i"
        "ex + 1 < length ?text \<longrightarrow> ?text ! (ex + 1) \<noteq> DQ"
        unfolding spanBefore_def by blast
      have "ex + 1 \<noteq> i" using x(3) ti il by auto
      with x(2) have "ex + 1 < i" by simp
      then have "isBefore (positionAt document (ex + 1)) (positionAt document i)"
        using il by (intro positionAt_mono) simp_all
      then show "isBefore (end' x) (start ?r)" using x(1) by simp
    qed
    have "scanInv document t (e + 1) (acc @ [?r])"
      using out new old before sep by (simp add: scanInv_def separated_append)
    then show ?thesis using ex by simp
  qed
qed

lemma extractLoop_inv:
  "JSON_parse (getText document) \<Longrightarrow> t = take n (getText document) \<Longrightarrow>
   scanInv document t i acc \<Longrightarrow> \<exists>k. scanInv document t k (extractLoop document t i c acc)"
proof (induction document t i c acc rule: extractLoop.induct)
  case (1 document t i stringCount ranges)
  note valid = "1.prems"(1) and pre = "1.prems"(2) and inv = "1.prems"(3)
  show ?case
  proof (cases "i < length t \<and> stringCount < maxStrings")
    case False
    then have "extractLoop document t i stringCount ranges = ranges"
      by (subst extractLoop.simps) auto
    with inv show ?thesis by auto
  next
    case run: True
    then have lt: "i < length t" by simp
    show ?thesis
    proof (cases "t ! i = DQ")
      case False
      have "extractLoop document t i stringCount ranges
            = extractLoop document t (i + 1) stringCount ranges"
        using run False by (subst extractLoop.simps) simp
      moreover have "scanInv document t (i + 1) ranges"
        using valid pre inv lt False by (rule scan_skip)
      ultimately show ?thesis using "1.IH"(3) [OF run False valid pre] by (simp only:)
    next
      case quote: True
      note sq = scan_quote [OF valid pre inv lt quote]
      show ?thesis
      proof (cases "extractSingleStringRange document t i")
        case None
        have "extractLoop document t i stringCount ranges
              = extractLoop document t (i + 1) stringCount ranges"
          using run quote None by (subst extractLoop.simps) simp
        moreover have "scanInv document t (i + 1) ranges" using sq None by simp
        ultimately show ?thesis using "1.IH"(1) [OF run quote None valid pre] by (simp only:)
      next
        case (Some res)
        obtain r nx where res: "res = (r, nx)" by (cases res)
        have "extractLoop document t i stringCount ranges
              = extractLoop document t nx (stringCount + 1) (ranges @ [r])"
          using run quote Some res by (subst extractLoop.simps) simp
        moreover have "scanInv document t nx (ranges @ [r])" using sq Some res by simp
        ultimately show ?thesis
          using "1.IH"(2) [OF run quote Some res [symmetric] valid pre] by (simp only:)
      qed
    qed
  qed
qed

lemma limitedLoop_inv:
  "JSON_parse (getText document) \<Longrightarrow> t = take n (getText document) \<Longrightarrow>
   scanInv document t i acc \<Longrightarrow> \<exists>k. scanInv document t k (limitedLoop document t i acc)"
proof (induction document t i acc rule: limitedLoop.induct)
  case (1 document t i ranges)
  note valid = "1.prems"(1) and pre = "1.prems"(2) and inv = "1.prems"(3)
  show ?case
  proof (cases "i < length t")
    case False
    then have "limitedLoop document t i ranges = ranges"
      by (subst limitedLoop.simps) auto
    with inv show ?thesis by auto
  next
    case lt: True
    show ?thesis
    proof (cases "t ! i = DQ")
      case False
      have "limitedLoop document t i ranges = limitedLoop document t (i + 1) ranges"
        using lt False by (subst limitedLoop.simps) simp
      moreover have "scanInv document t (i + 1) ranges"
        using valid pre inv lt False by (rule scan_skip)
      ultimately show ?thesis using "1.IH"(3) [OF lt False valid pre] by (simp only:)
    next
      case quote: True
      note sq = scan_quote [OF valid pre inv lt quote]
      show ?thesis
      proof (cases "extractSingleStringRange document t i")
        case None
        have "limitedLoop document t i ranges = limitedLoop document t (i + 1) ranges"
          using lt quote None by (subst limitedLoop.simps) simp
        moreover have "scanInv document t (i + 1) ranges" using sq None by simp
        ultimately show ?thesis using "1.IH"(1) [OF lt quote None valid pre] by (simp only:)
      next
        case (Some res)
        obtain r nx where res: "res = (r, nx)" by (cases res)
        have "limitedLoop document t i ranges = limitedLoop document t nx (ranges @ [r])"
          using lt quote Some res by (subst limitedLoop.simps) simp
        moreover have "scanInv document t nx (ranges @ [r])" using sq Some res by simp
        ultimately show ?thesis
          using "1.IH"(2) [OF lt quote Some res [symmetric] valid pre] by (simp only:)
      qed
    qed
  qed
qed

lemma scanInv_start: "scanInv document t 0 []"
  by (simp add: scanInv_def outsideAt_ex stateAt_def)

lemma parse_scanInv:
  "\<exists>t k. scanInv document t k (stringRanges (parseJsonSafely document))"
proof (cases "JSON_parse (getText document)")
  case False
  then have "stringRanges (parseJsonSafely document) = []" by (simp add: parseJsonSafely_def)
  with scanInv_start show ?thesis by metis
next
  case valid: True
  let ?text = "getText document"
  show ?thesis
  proof (cases "length ?text > maxFileSize")
    case True
    then have "stringRanges (parseJsonSafely document)
               = limitedLoop document (take maxFileSize ?text) 0 []"
      using valid
      by (simp add: parseJsonSafely_def extractStringRangesFromValidJson_def
            extractStringRangesWithLimits_def substring_def)
    with limitedLoop_inv [OF valid refl scanInv_start] show ?thesis by metis
  next
    case False
    then have "stringRanges (parseJsonSafely document)
               = extractLoop document (take (length ?text) ?text) 0 0 []"
      using valid by (simp add: parseJsonSafely_def extractStringRangesFromValidJson_def)
    with extractLoop_inv [OF valid refl scanInv_start] show ?thesis by metis
  qed
qed

lemma isBefore_trans: "isBefore a b \<Longrightarrow> isBefore b c \<Longrightarrow> isBefore a c"
  by (auto simp: isBefore_def)

lemma isBefore_asym: "isBefore a b \<Longrightarrow> \<not> isBefore b a"
  by (auto simp: isBefore_def)

lemma separated_outside:
  assumes "separated xs" and "\<forall>x \<in> set xs. isBefore (start x) (end' x)" and "r \<in> set xs"
  shows "\<forall>x \<in> set xs. \<not> isPositionInRange (end' r) x"
  using assms
proof (induction xs)
  case Nil
  then show ?case by simp
next
  case (Cons y ys)
  show ?case
  proof (cases "r = y")
    case True
    have "\<not> isPositionInRange (end' y) y"
      by (simp add: isPositionInRange_def isBefore_def)
    moreover have "\<not> isPositionInRange (end' y) x" if "x \<in> set ys" for x
      using Cons.prems(1) that by (auto simp: isPositionInRange_def isAfterOrEqual_def)
    ultimately show ?thesis using True by auto
  next
    case False
    then have r: "r \<in> set ys" using Cons.prems(3) by simp
    have "isBefore (end' y) (start r)" using Cons.prems(1) r by simp
    moreover have "isBefore (start r) (end' r)" using Cons.prems(2) r by simp
    ultimately have "isBefore (end' y) (end' r)" by (rule isBefore_trans)
    then have "\<not> isPositionInRange (end' r) y"
      using isBefore_asym by (auto simp: isPositionInRange_def)
    moreover have "\<forall>x \<in> set ys. \<not> isPositionInRange (end' r) x"
      using Cons.IH Cons.prems r by simp
    ultimately show ?thesis by simp
  qed
qed

lemma valid_spans:
  shows "\<forall>r \<in> set (stringRanges (parseJsonSafely document)). \<forall>c \<in> set (content r). \<not> isControl c"
    and "\<forall>r \<in> set (stringRanges (parseJsonSafely document)).
           getStringRangeAtPosition document (end' r) = None"
proof -
  from parse_scanInv [of document] obtain t k where
    inv: "scanInv document t k (stringRanges (parseJsonSafely document))" by blast
  then have spans: "\<forall>r \<in> set (stringRanges (parseJsonSafely document)). spanBefore document k r"
    and sep: "separated (stringRanges (parseJsonSafely document))"
    by (simp_all add: scanInv_def)
  show "\<forall>r \<in> set (stringRanges (parseJsonSafely document)). \<forall>c \<in> set (content r). \<not> isControl c"
    using spans unfolding spanBefore_def by blast
  have wf: "\<forall>r \<in> set (stringRanges (parseJsonSafely document)). isBefore (start r) (end' r)"
  proof
    fix r assume "r \<in> set (stringRanges (parseJsonSafely document))"
    with spans obtain s e where "s < e" "e < length (getText document)"
      "start r = positionAt document s" "end' r = positionAt document (e + 1)"
      unfolding spanBefore_def by blast
    then show "isBefore (start r) (end' r)" by (auto intro!: positionAt_mono)
  qed
  show "\<forall>r \<in> set (stringRanges (parseJsonSafely document)).
           getStringRangeAtPosition document (end' r) = None"
  proof
    fix r assume r: "r \<in> set (stringRanges (parseJsonSafely document))"
    from separated_outside [OF sep wf r]
    show "getStringRangeAtPosition document (end' r) = None"
      by (simp add: getStringRangeAtPosition_def find_None_iff Let_def)
  qed
qed

section \<open>The scanned ranges do not overlap\<close>

lemma separated_unique:
  assumes "separated xs" and "\<forall>x \<in> set xs. isBefore (start x) (end' x)"
    and "r \<in> set xs" and "isPositionInRange p r"
  shows "\<forall>x \<in> set xs. isPositionInRange p x \<longrightarrow> x = r"
  using assms
proof (induction xs)
  case Nil
  then show ?case by simp
next
  case (Cons y ys)
  have sep: "separated ys" and wf: "\<forall>x \<in> set ys. isBefore (start x) (end' x)"
    using Cons.prems(1,2) by simp_all
  show ?case
  proof (cases "r = y")
    case True
    have later: "\<not> isPositionInRange p x" if "x \<in> set ys" for x
    proof -
      have yx: "isBefore (end' y) (start x)" using Cons.prems(1) that by simp
      have "isBefore p (end' y)" using Cons.prems(4) True by (simp add: isPositionInRange_def)
      from this yx have "isBefore p (start x)" by (rule isBefore_trans)
      then show ?thesis by (simp add: isPositionInRange_def isAfterOrEqual_def)
    qed
    show ?thesis
    proof (intro ballI impI)
      fix x assume "x \<in> set (y # ys)" and "isPositionInRange p x"
      with later have "x = y" by auto
      with True show "x = r" by simp
    qed
  next
    case False
    then have r: "r \<in> set ys" using Cons.prems(3) by simp
    have yr: "isBefore (end' y) (start r)" using Cons.prems(1) r by simp
    have pr: "\<not> isBefore p (start r)"
      using Cons.prems(4) by (simp add: isPositionInRange_def isAfterOrEqual_def)
    have "\<not> isBefore p (end' y)"
    proof
      assume "isBefore p (end' y)"
      from this yr have "isBefore p (start r)" by (rule isBefore_trans)
      with pr show False by simp
    qed
    then have noty: "\<not> isPositionInRange p y" by (simp add: isPositionInRange_def)
    note IH = Cons.IH [OF sep wf r Cons.prems(4)]
    show ?thesis
    proof (intro ballI impI)
      fix x assume "x \<in> set (y # ys)" and px: "isPositionInRange p x"
      with noty have "x \<in> set ys" by auto
      with IH px show "x = r" by blast
    qed
  qed
qed

lemma find_unique:
  assumes "r \<in> set xs" and "P r" and "\<forall>x \<in> set xs. P x \<longrightarrow> x = r"
  shows "find P xs = Some r"
proof (cases "find P xs")
  case None
  then have "\<not> P r" using assms(1) by (simp add: find_None_iff)
  with assms(2) show ?thesis by simp
next
  case (Some x)
  then have "P x \<and> x \<in> set xs" by (auto simp: find_Some_iff)
  with assms(3) have "x = r" by blast
  with Some show ?thesis by simp
qed

lemma spans_facts:
  shows spans_separated: "separated (stringRanges (parseJsonSafely document))"
    and spans_ordered: "\<forall>r \<in> set (stringRanges (parseJsonSafely document)). isBefore (start r) (end' r)"
proof -
  from parse_scanInv [of document] obtain t k where
    inv: "scanInv document t k (stringRanges (parseJsonSafely document))" by blast
  then show "separated (stringRanges (parseJsonSafely document))" by (simp add: scanInv_def)
  show "\<forall>r \<in> set (stringRanges (parseJsonSafely document)). isBefore (start r) (end' r)"
  proof
    fix r assume "r \<in> set (stringRanges (parseJsonSafely document))"
    from parse_spans [OF this] obtain s e where "s < e" "e < length (getText document)"
      "start r = positionAt document s" "end' r = positionAt document (e + 1)" by blast
    then show "isBefore (start r) (end' r)" by (auto intro!: positionAt_mono)
  qed
qed

lemma inside_returns_span:
  assumes "r \<in> set (stringRanges (parseJsonSafely document))" and "isPositionInRange p r"
  shows "getStringRangeAtPosition document p = Some r"
proof -
  from assms(1) have valid: "isValid (parseJsonSafely document)"
    by (auto simp: parseJsonSafely_def Let_def split: if_splits)
  from separated_unique [OF spans_separated spans_ordered assms]
  have "find (isPositionInRange p) (stringRanges (parseJsonSafely document)) = Some r"
    by (rule find_unique [where P = "isPositionInRange p", OF assms])
  with valid show ?thesis by (simp add: getStringRangeAtPosition_def Let_def)
qed

lemma substring_subset: "set (substring s a b) \<subseteq> set s"
  by (auto simp: substring_def dest: in_set_takeD in_set_dropD)

section \<open>Claims\<close>

text \<open>
  C1. Parity law of the newline escape locator. Wherever a backslash at index \<open>i\<close> is
  followed by the letter n, \<^verbatim>\<open>findNewlineEscapeSequences\<close> reports \<open>i\<close> exactly when the
  number of consecutive backslashes immediately before \<open>i\<close> is even. So \<open>2k\<close> backslashes
  followed by backslash-n give the single occurrence \<open>2k\<close>, \<open>2k + 1\<close> backslashes followed
  by backslash-n give none, backslash-backslash-n gives the empty list, and
  backslash-n-backslash-backslash-n gives the occurrence \<open>0\<close> alone.
\<close>

theorem C1_parity_law:
  "(\<forall>text i. i + 1 < length text \<and> text ! i = BSL \<and> text ! (i + 1) = CHR ''n'' \<longrightarrow>
      (i \<in> set (findNewlineEscapeSequences text) \<longleftrightarrow> even (precedingBackslashes text i)))
   \<and> (\<forall>k. findNewlineEscapeSequences (replicate (2 * k) BSL @ [BSL, CHR ''n'']) = [2 * k])
   \<and> (\<forall>k. findNewlineEscapeSequences (replicate (2 * k + 1) BSL @ [BSL, CHR ''n'']) = [])
   \<and> findNewlineEscapeSequences [BSL, BSL, CHR ''n''] = []
   \<and> findNewlineEscapeSequences [BSL, CHR ''n'', BSL, BSL, CHR ''n''] = [0]"
proof (intro conjI allI impI)
  fix "text" :: string and i :: nat
  assume h: "i + 1 < length text \<and> text ! i = BSL \<and> text ! (i + 1) = CHR ''n''"
  then have "i \<in> set (findNewlineEscapeSequences text) \<longleftrightarrow> countBackslashes text i 0 mod 2 = 0"
    by (auto simp: findNewlineEscapeSequences_filter realEscapeAt_def)
  also have "countBackslashes text i 0 = precedingBackslashes text i"
    using h by (simp add: countBackslashes_preceding)
  finally show "i \<in> set (findNewlineEscapeSequences text) \<longleftrightarrow> even (precedingBackslashes text i)"
    by (simp add: even_iff_mod_2_eq_zero)
next
  fix k
  show "findNewlineEscapeSequences (replicate (2 * k) BSL @ [BSL, CHR ''n'']) = [2 * k]"
    by (simp add: locate_run)
next
  fix k
  show "findNewlineEscapeSequences (replicate (2 * k + 1) BSL @ [BSL, CHR ''n'']) = []"
    using locate_run [of "2 * k + 1"] by simp
next
  show "findNewlineEscapeSequences [BSL, BSL, CHR ''n''] = []"
    by code_simp
next
  show "findNewlineEscapeSequences [BSL, CHR ''n'', BSL, BSL, CHR ''n''] = [0]"
    by code_simp
qed

theorem C1_parity_law_witness:
  "2 \<in> set (findNewlineEscapeSequences [BSL, BSL, BSL, CHR ''n''])
   \<and> 1 \<notin> set (findNewlineEscapeSequences [BSL, BSL, CHR ''n''])"
proof -
  have a: "precedingBackslashes [BSL, BSL, BSL, CHR ''n''] 2 = 2"
    by (simp add: precedingBackslashes_def numeral_eq_Suc)
  have b: "precedingBackslashes [BSL, BSL, CHR ''n''] 1 = 1"
    by (simp add: precedingBackslashes_def)
  from C1_parity_law have law:
    "\<And>text i. i + 1 < length text \<and> text ! i = BSL \<and> text ! (i + 1) = CHR ''n'' \<Longrightarrow>
       (i \<in> set (findNewlineEscapeSequences text) \<longleftrightarrow> even (precedingBackslashes text i))"
    by blast
  show ?thesis
    using law [of 2 "[BSL, BSL, BSL, CHR ''n'']"] law [of 1 "[BSL, BSL, CHR ''n'']"] a b
    by (simp add: numeral_eq_Suc)
qed

text \<open>
  C2, as amended. After \<^verbatim>\<open>transformActualContentToVisual\<close>,
  \<^verbatim>\<open>transformVisualContentToActual\<close> gives the fragment back exactly when the fragment
  holds no line feed of its own or the start of the range lies in no string range (where
  both functions change nothing). The content of a scanned string range holds no line
  feed, so every piece of it comes back unchanged, whatever the range.
\<close>

theorem C2_roundtrip:
  "(transformVisualContentToActual document (transformActualContentToVisual document f r) r = f
      \<longleftrightarrow> (getStringRangeAtPosition document (range_start r) = None \<or> LF \<notin> set f))
   \<and> (\<forall>sr \<in> set (stringRanges (parseJsonSafely document)).
         LF \<notin> set (content sr)
         \<and> transformVisualContentToActual document
             (transformActualContentToVisual document (substring (content sr) a b) r) r
           = substring (content sr) a b)"
proof (intro conjI ballI)
  show law: "transformVisualContentToActual document (transformActualContentToVisual document f r) r = f
      \<longleftrightarrow> (getStringRangeAtPosition document (range_start r) = None \<or> LF \<notin> set f)" for f
  proof (cases "getStringRangeAtPosition document (range_start r)")
    case None
    then show ?thesis
      by (simp add: transformVisualContentToActual_def transformActualContentToVisual_def)
  next
    case (Some sr)
    have "replaceLineBreaks (replaceEscapePairs f) = f \<longleftrightarrow> LF \<notin> set f"
      using replace_roundtrip [of f] replaceLineBreaks_no_LF [of "replaceEscapePairs f"] by metis
    with Some show ?thesis
      by (simp add: transformVisualContentToActual_def transformActualContentToVisual_def)
  qed
  fix sr
  assume "sr \<in> set (stringRanges (parseJsonSafely document))"
  with valid_spans(1) [of document] have "\<forall>c \<in> set (content sr). \<not> isControl c" by simp
  then show clean: "LF \<notin> set (content sr)" using not_control(4) by blast
  then have "LF \<notin> set (substring (content sr) a b)" using substring_subset by fastforce
  then show "transformVisualContentToActual document
             (transformActualContentToVisual document (substring (content sr) a b) r) r
           = substring (content sr) a b"
    using law by simp
qed

theorem C2_roundtrip_witness:
  "getStringRangeAtPosition scenarioDoc (Position 0 7) = Some scenarioSpan
   \<and> transformVisualContentToActual scenarioDoc
       (transformActualContentToVisual scenarioDoc [CHR ''x'', BSL, CHR ''n'', CHR ''y'']
          (Range (Position 0 7) (Position 0 11)))
       (Range (Position 0 7) (Position 0 11))
     = [CHR ''x'', BSL, CHR ''n'', CHR ''y'']
   \<and> scenarioSpan \<in> set (stringRanges (parseJsonSafely scenarioDoc))
   \<and> substring (content scenarioSpan) 1 3 = [BSL, CHR ''n'']
   \<and> transformVisualContentToActual scenarioDoc
       (transformActualContentToVisual scenarioDoc (substring (content scenarioSpan) 1 3)
          (Range (Position 0 8) (Position 0 10)))
       (Range (Position 0 8) (Position 0 10))
     = substring (content scenarioSpan) 1 3"
proof -
  have m: "scenarioSpan \<in> set (stringRanges (parseJsonSafely scenarioDoc))"
    by (simp add: scenario_parse)
  have piece: "substring (content scenarioSpan) 1 3 = [BSL, CHR ''n'']"
    by (simp add: scenarioSpan_def substring_def)
  have whole: "LF \<notin> set [CHR ''x'', BSL, CHR ''n'', CHR ''y'']" by simp
  from C2_roundtrip [of scenarioDoc "[CHR ''x'', BSL, CHR ''n'', CHR ''y'']"
                        "Range (Position 0 7) (Position 0 11)"] whole
  have "transformVisualContentToActual scenarioDoc
       (transformActualContentToVisual scenarioDoc [CHR ''x'', BSL, CHR ''n'', CHR ''y'']
          (Range (Position 0 7) (Position 0 11)))
       (Range (Position 0 7) (Position 0 11))
     = [CHR ''x'', BSL, CHR ''n'', CHR ''y'']" by blast
  moreover from C2_roundtrip [of scenarioDoc _ "Range (Position 0 8) (Position 0 10)" 1 3] m
  have "transformVisualContentToActual scenarioDoc
       (transformActualContentToVisual scenarioDoc (substring (content scenarioSpan) 1 3)
          (Range (Position 0 8) (Position 0 10)))
       (Range (Position 0 8) (Position 0 10))
     = substring (content scenarioSpan) 1 3" by blast
  ultimately show ?thesis using m piece scenario_inside by simp
qed

text \<open>
  C2 as stated fails: in the two-line document the range from the x of the string value to
  the start of the second line starts inside a string range with \<open>hasNewlines\<close>, and the
  fragment it cuts out ends with the line feed between the two members; the round trip
  turns that line feed into backslash-n.
\<close>

theorem C2_roundtrip_counterexample:
  "isValid (parseJsonSafely twoLineDoc)
   \<and> getStringRangeAtPosition twoLineDoc (Position 0 7) = Some scenarioSpan
   \<and> hasNewlines scenarioSpan
   \<and> transformVisualContentToActual twoLineDoc
       (transformActualContentToVisual twoLineDoc
          (getTextInRange twoLineDoc (Range (Position 0 7) (Position 1 0)))
          (Range (Position 0 7) (Position 1 0)))
       (Range (Position 0 7) (Position 1 0))
     \<noteq> getTextInRange twoLineDoc (Range (Position 0 7) (Position 1 0))"
  unfolding twoLine_fragment
  by (simp add: twoLine_parse getStringRangeAtPosition_def isPositionInRange_def
        isAfterOrEqual_def isBefore_def scenarioSpan_def transformVisualContentToActual_def
        transformActualContentToVisual_def)

text \<open>
  C3. The claim says that a line feed typed inside a decorated string is answered by a
  counter-edit that replaces the inserted text by the backslash-n escape, so that the
  document stays valid JSON; the comments of \<^verbatim>\<open>handleDecoratedAreaEdit\<close> and of
  \<^verbatim>\<open>convertLineBreaksToEscapeSequences\<close> say the same. The code does not do it. With the
  decorations of the scenario document applied and the flag clear, the Enter key is
  pressed at the backslash of the escape (character 8 of line 0, inside the string range
  with \<open>hasNewlines\<close>, touching the decoration). The editor hands over the document with
  the line feed in it, \<^verbatim>\<open>JSON.parse\<close> rejects that text, and the handler returns at the
  validity check: the synchronizer is unchanged, the flag stays clear and no edit is
  handed to the editor. Given the text from before the change instead, the handler makes
  no edit for an Enter key just after the opening quote (character 7), where the range of
  the change touches no decoration; and for the Enter key at character 8 its one edit
  replaces the range of the change, which is empty and ends before the line feed that
  was typed.
\<close>

theorem C3_enter_gets_no_counter_edit:
  "\<not> isProcessingEdit decoratedSynchronizer
   \<and> isJsonDocument scenarioDoc
   \<and> getStringRangeAtPosition scenarioDoc (Position 0 8) = Some scenarioSpan
   \<and> getStringRangeAtPosition scenarioDoc (Position 0 7) = Some scenarioSpan
   \<and> hasNewlines scenarioSpan
   \<and> getDecorationsInRange (decorationManager decoratedSynchronizer)
        (Range (Position 0 8) (Position 0 8)) \<noteq> []
   \<and> getText (enteredDoc 8) = ''{\"a\": \"x'' @ [LF, BSL, CHR ''n''] @ ''y\"}''
   \<and> isJsonDocument (enteredDoc 8)
   \<and> \<not> isValid (parseJsonSafely (enteredDoc 8))
   \<and> onDidChangeTextDocument (Some (enteredDoc 8)) (enterDelivered 8) decoratedSynchronizer
       = (decoratedSynchronizer, [])
   \<and> snd (onDidChangeTextDocument (Some scenarioDoc) (enterAt 7) decoratedSynchronizer) = []
   \<and> \<not> isProcessingEdit
         (fst (onDidChangeTextDocument (Some scenarioDoc) (enterAt 7) decoratedSynchronizer))
   \<and> snd (onDidChangeTextDocument (Some scenarioDoc) (enterAt 8) decoratedSynchronizer)
       = [Replace (uri scenarioDoc) (Range (Position 0 8) (Position 0 8)) [BSL, CHR ''n'']]"
proof -
  have 1: "\<not> isProcessingEdit decoratedSynchronizer"
    by (simp add: decoratedSynchronizer_def freshSynchronizer_def)
  have valid: "isValid (parseJsonSafely scenarioDoc)" by (simp add: scenario_parse)
  have entered: "getText (enteredDoc 8) = ''{\"a\": \"x'' @ [LF, BSL, CHR ''n''] @ ''y\"}''"
    by (simp add: enteredDoc_def scenarioText_def)
  have json: "isJsonDocument (enteredDoc 8)"
    by (simp add: isJsonDocument_def enteredDoc_def scenarioDoc_def)
  have "\<not> JSON_parse (getText (enteredDoc 8))"
    unfolding entered
    by (simp add: JSON_parse_def isWhitespace_def startValue_def isControl_def)
  then have invalid: "\<not> isValid (parseJsonSafely (enteredDoc 8))"
    by (simp add: invalid_parse)
  have delivered: "onDidChangeTextDocument (Some (enteredDoc 8)) (enterDelivered 8)
                     decoratedSynchronizer = (decoratedSynchronizer, [])"
    using 1 json invalid by (simp add: onDidChangeTextDocument_def enterDelivered_def)
  have touching: "getDecorationsInRange (decorationManager decoratedSynchronizer)
             (Range (Position 0 8) (Position 0 8)) \<noteq> []"
    by (simp add: decorated_manager getDecorationsInRange_def intersection_def isBefore_def
          isAfter_def Let_def)
  have none: "getDecorationsInRange (decorationManager decoratedSynchronizer)
             (Range (Position 0 7) (Position 0 7)) = []"
    by (simp add: decorated_manager getDecorationsInRange_def intersection_def isBefore_def
          isAfter_def Let_def)
  have at7: "processContentChanges scenarioDoc
                [ContentChange (Range (Position 0 7) (Position 0 7)) [LF]]
                (ensureDocumentState scenarioDoc decoratedSynchronizer)
              = (ensureDocumentState scenarioDoc decoratedSynchronizer, [])"
    using none by (simp add: processContentChange_def)
  have at8: "snd (processContentChanges scenarioDoc
                [ContentChange (Range (Position 0 8) (Position 0 8)) [LF]]
                (ensureDocumentState scenarioDoc decoratedSynchronizer))
              = [Replace (uri scenarioDoc) (Range (Position 0 8) (Position 0 8)) [BSL, CHR ''n'']]"
    using touching
    by (simp add: processContentChange_def handleDecoratedAreaEdit_def scenario_at
          includesEscapePair_def convertLineBreaksToEscapeSequences_def
          transformVisualContentToActual_def Let_def)
  have "snd (onDidChangeTextDocument (Some scenarioDoc) (enterAt 7) decoratedSynchronizer) = []"
    and "\<not> isProcessingEdit
         (fst (onDidChangeTextDocument (Some scenarioDoc) (enterAt 7) decoratedSynchronizer))"
    and "snd (onDidChangeTextDocument (Some scenarioDoc) (enterAt 8) decoratedSynchronizer)
       = [Replace (uri scenarioDoc) (Range (Position 0 8) (Position 0 8)) [BSL, CHR ''n'']]"
    using handler_open(1,2) [OF 1 scenario_json valid, of "Some scenarioDoc"] at7 at8 1
    by (simp_all add: enterAt_def)
  then show ?thesis
    using 1 scenario_json scenario_inside scenario_at touching entered json invalid delivered
    by (simp add: scenarioSpan_def)
qed

text \<open>
  C4. For a document whose text \<^verbatim>\<open>JSON.parse\<close> rejects, \<^verbatim>\<open>parseJsonSafely\<close> returns
  \<open>isValid = False\<close> with no string range, both extractions of newline positions return
  the empty list, no position is in a string, the content transformations return their
  input, and the change handler leaves the synchronizer as it was and submits no edit.
  The text \<^verbatim>\<open>{"a": }\<close> is rejected. Nothing is latched: for a JSON document whose text
  parses the handler goes on to track the document.
\<close>

theorem C4_fail_closed:
  "(\<not> JSON_parse (getText document) \<longrightarrow>
      parseJsonSafely document = \<lparr>isValid = False, stringRanges = []\<rparr>
      \<and> extractNewlinePositions document = []
      \<and> getDetailedNewlinePositions document = []
      \<and> getStringRangeAtPosition document p = None
      \<and> transformVisualContentToActual document s r = s
      \<and> transformActualContentToVisual document s r = s
      \<and> onDidChangeTextDocument activeEditor (TextDocumentChangeEvent document changes) es
          = (es, []))
   \<and> \<not> JSON_parse ''{\"a\": }''
   \<and> (JSON_parse (getText document) \<and> isJsonDocument document \<and> \<not> isProcessingEdit es \<longrightarrow>
        documentStates
          (fst (onDidChangeTextDocument activeEditor (TextDocumentChangeEvent document changes) es))
          (uri document) \<noteq> None)"
proof (intro conjI impI)
  assume bad: "\<not> JSON_parse (getText document)"
  note p = invalid_parse [OF bad]
  show "parseJsonSafely document = \<lparr>isValid = False, stringRanges = []\<rparr>" by (rule p)
  show "extractNewlinePositions document = []" by (simp add: extractNewlinePositions_def p)
  show "getDetailedNewlinePositions document = []"
    by (simp add: getDetailedNewlinePositions_def p)
  show none: "getStringRangeAtPosition document p = None"
    by (simp add: getStringRangeAtPosition_def p)
  show "transformVisualContentToActual document s r = s"
    by (simp add: transformVisualContentToActual_def getStringRangeAtPosition_def p)
  show "transformActualContentToVisual document s r = s"
    by (simp add: transformActualContentToVisual_def getStringRangeAtPosition_def p)
  show "onDidChangeTextDocument activeEditor (TextDocumentChangeEvent document changes) es
          = (es, [])"
    by (simp add: onDidChangeTextDocument_def p)
next
  show "\<not> JSON_parse ''{\"a\": }''"
    by (simp add: JSON_parse_def isWhitespace_def startValue_def afterValue_def isControl_def
          accepting_def isDigit_def)
next
  assume "JSON_parse (getText document) \<and> isJsonDocument document \<and> \<not> isProcessingEdit es"
  then have "\<not> isProcessingEdit es" "isJsonDocument document" "isValid (parseJsonSafely document)"
    by (simp_all add: parseJsonSafely_def)
  then show "documentStates
          (fst (onDidChangeTextDocument activeEditor (TextDocumentChangeEvent document changes) es))
          (uri document) \<noteq> None"
    by (rule handler_open(3))
qed

theorem C4_fail_closed_witness:
  "parseJsonSafely invalidDoc = \<lparr>isValid = False, stringRanges = []\<rparr>
   \<and> getDetailedNewlinePositions invalidDoc = []
   \<and> onDidChangeTextDocument (Some invalidDoc)
        (TextDocumentChangeEvent invalidDoc
           [ContentChange (Range (Position 0 6) (Position 0 6)) [LF]]) decoratedSynchronizer
       = (decoratedSynchronizer, [])"
proof -
  have "\<not> JSON_parse (getText invalidDoc)"
    using C4_fail_closed [of invalidDoc] by (simp add: invalidDoc_def)
  with C4_fail_closed [of invalidDoc "Position 0 6" "[]" "Range (Position 0 6) (Position 0 6)"
         "Some invalidDoc" "[ContentChange (Range (Position 0 6) (Position 0 6)) [LF]]"
         decoratedSynchronizer]
  show ?thesis by blast
qed

text \<open>
  C5, as amended. \<^verbatim>\<open>transformActualToVisual\<close> returns the position unchanged when no
  occurrence ends at or before its offset. Otherwise the line it returns is the line of
  the actual position plus the number of occurrences that end at or before the offset
  (not that number alone), and the column is the offset minus the end offset of the last
  such occurrence. In the document of Scenario D the position of the y, line 0 character
  10, goes to line 1, column 0.
\<close>

theorem C5_actual_to_visual:
  "transformActualToVisual document p =
     (let ended = occurrencesEndedBy document (offsetAt document p)
      in if ended = [] then p
         else Position (line p + length ended)
                (offsetAt document p - endOffset (last ended)))
   \<and> transformActualToVisual scenarioDoc (Position 0 10) = Position 1 0"
proof
  let ?occs = "getDetailedNewlinePositions document"
  let ?t = "offsetAt document p"
  let ?ended = "occurrencesEndedBy document ?t"
  have last_end: "endOffset (last ?ended) = offset (last ?ended) + 2" if "?ended \<noteq> []"
  proof -
    from that have "last ?ended \<in> set ?ended" by (rule last_in_set)
    then have "last ?ended \<in> set ?occs" by (simp add: occurrencesEndedBy_def)
    then show ?thesis by (rule occurrences_endOffset)
  qed
  show "transformActualToVisual document p =
     (let ended = ?ended
      in if ended = [] then p
         else Position (line p + length ended) (?t - endOffset (last ended)))"
  proof (cases "?occs = []")
    case True
    then show ?thesis
      by (simp add: transformActualToVisual_def occurrencesEndedBy_def)
  next
    case False
    show ?thesis
    proof (cases "?ended = []")
      case True
      then show ?thesis
        using False
        by (cases p)
           (simp add: transformActualToVisual_def actualToVisualLoop_filter Let_def
              occurrencesEndedBy_code)
    next
      case ne: False
      then show ?thesis
        using False last_end [OF ne]
        by (simp add: transformActualToVisual_def actualToVisualLoop_filter Let_def
              occurrencesEndedBy_code)
    qed
  qed
next
  show "transformActualToVisual scenarioDoc (Position 0 10) = Position 1 0"
    by (simp add: transformActualToVisual_def scenario_occurrences offsetAt_def scenario_getText)
qed

theorem C5_actual_to_visual_witness:
  "occurrencesEndedBy multilineDoc (offsetAt multilineDoc (Position 1 9)) \<noteq> []
   \<and> transformActualToVisual multilineDoc (Position 1 9) = Position 2 0"
proof -
  have ended: "occurrencesEndedBy multilineDoc 11 =
     [DetailedNewlinePosition (Position 1 7) (Position 1 9)
        (StringRange (Position 1 5) (Position 1 11) [CHR ''x'', BSL, CHR ''n'', CHR ''y''] True)
        9 11 0 ''x'' ''y'']"
    by (simp add: occurrencesEndedBy_def multiline_occurrences)
  have off: "offsetAt multilineDoc (Position 1 9) = 11"
    by (simp add: offsetAt_def multiline_getText)
  from C5_actual_to_visual [of multilineDoc "Position 1 9"]
  have "transformActualToVisual multilineDoc (Position 1 9) =
     (let ended = occurrencesEndedBy multilineDoc (offsetAt multilineDoc (Position 1 9))
      in if ended = [] then Position 1 9
         else Position (line (Position 1 9) + length ended)
                (offsetAt multilineDoc (Position 1 9) - endOffset (last ended)))"
    by (rule conjunct1)
  then show ?thesis unfolding off ended by simp
qed

text \<open>
  C5 as stated fails where the actual position is not on line 0: in the document with a
  line feed after the opening brace, one occurrence ends at or before the offset of the
  y, and the visual line is 2.
\<close>

theorem C5_line_counterexample:
  "isValid (parseJsonSafely multilineDoc)
   \<and> line (transformActualToVisual multilineDoc (Position 1 9)) = 2
   \<and> length (occurrencesEndedBy multilineDoc (offsetAt multilineDoc (Position 1 9))) = 1"
  by (simp add: multiline_parse transformActualToVisual_def occurrencesEndedBy_def
        multiline_occurrences offsetAt_def multiline_getText)

text \<open>
  C6. The claim says that \<^verbatim>\<open>transformVisualToActual\<close> undoes
  \<^verbatim>\<open>transformActualToVisual\<close>. In the document of Scenario D the position of the y,
  line 0 character 10, goes to line 1 character 0, and that goes back to line 0
  character 2.
\<close>

theorem C6_roundtrip_fails:
  "isValid (parseJsonSafely scenarioDoc)
   \<and> transformActualToVisual scenarioDoc (Position 0 10) = Position 1 0
   \<and> transformVisualToActual scenarioDoc (Position 1 0) = Position 0 2
   \<and> transformVisualToActual scenarioDoc (transformActualToVisual scenarioDoc (Position 0 10))
       \<noteq> Position 0 10"
proof -
  have a: "transformActualToVisual scenarioDoc (Position 0 10) = Position 1 0"
    by (simp add: transformActualToVisual_def scenario_occurrences offsetAt_def scenario_getText)
  have b: "transformVisualToActual scenarioDoc (Position 1 0) = Position 0 2"
    by (simp add: visual_defs scenario_occurrences scenarioSpan_def offsetAt_def positionAt_def
          scenario_getText)
  show ?thesis unfolding a b by (simp add: scenario_parse)
qed

text \<open>
  C7. The claim says that \<^verbatim>\<open>transformActualContentToVisual\<close> leaves a backslash-n pair
  alone when its backslash is itself escaped. The code does not: in the document whose
  string value is x, backslash, backslash, n, y, the fragment backslash-backslash-n (in
  which the locator finds no occurrence) comes back as backslash, line feed.
\<close>

theorem C7_escaped_backslash_pair_replaced:
  "isValid (parseJsonSafely escapedDoc)
   \<and> getStringRangeAtPosition escapedDoc (Position 0 8) \<noteq> None
   \<and> getTextInRange escapedDoc (Range (Position 0 8) (Position 0 11)) = [BSL, BSL, CHR ''n'']
   \<and> findNewlineEscapeSequences [BSL, BSL, CHR ''n''] = []
   \<and> transformActualContentToVisual escapedDoc [BSL, BSL, CHR ''n'']
        (Range (Position 0 8) (Position 0 11)) = [BSL, LF]"
proof -
  have "findNewlineEscapeSequences [BSL, BSL, CHR ''n''] = []" by code_simp
  moreover have "getTextInRange escapedDoc (Range (Position 0 8) (Position 0 11))
                 = [BSL, BSL, CHR ''n'']"
    by (simp add: getTextInRange_def offsetAt_def escapedDoc_def substring_def)
  ultimately show ?thesis
    by (simp add: escaped_parse getStringRangeAtPosition_def isPositionInRange_def
          isAfterOrEqual_def isBefore_def transformActualContentToVisual_def)
qed

text \<open>
  C8. Every string range that \<^verbatim>\<open>parseJsonSafely\<close> returns (it returns some only for valid
  JSON) starts before it ends; \<open>start\<close> is the position of the opening quote of a string
  literal, at some offset \<open>s\<close>, \<open>end'\<close> the position one past the closing quote of that
  literal, at offset \<open>e\<close> (\<open>literalAt\<close>: the recogniser of the JSON grammar enters the
  literal at \<open>s\<close> and leaves it at \<open>e\<close>, so neither is the quote of an escape sequence),
  and \<open>content\<close> is the text of the document strictly between the two, escape sequences
  as they stand; \<open>hasNewlines\<close> holds exactly when \<^verbatim>\<open>findNewlineEscapeSequences\<close> finds an
  occurrence in the content.
\<close>

theorem C8_span_wellformed:
  "\<forall>r \<in> set (stringRanges (parseJsonSafely document)).
     isBefore (start r) (end' r)
     \<and> (\<exists>s e. s < e \<and> e < length (getText document)
              \<and> getText document ! s = DQ \<and> getText document ! e = DQ
              \<and> literalAt (getText document) s e
              \<and> start r = positionAt document s \<and> end' r = positionAt document (e + 1)
              \<and> content r = take (e - (s + 1)) (drop (s + 1) (getText document)))
     \<and> (hasNewlines r \<longleftrightarrow> findNewlineEscapeSequences (content r) \<noteq> [])"
proof
  fix r
  assume r: "r \<in> set (stringRanges (parseJsonSafely document))"
  from parse_scanInv [of document] obtain t k where
    "scanInv document t k (stringRanges (parseJsonSafely document))" by blast
  with r have "spanBefore document k r" by (simp add: scanInv_def)
  then obtain s e where
    se: "s < e" "e < length (getText document)"
      "getText document ! s = DQ" "getText document ! e = DQ"
      "literalAt (getText document) s e"
      "start r = positionAt document s" "end' r = positionAt document (e + 1)"
      "content r = substring (getText document) (s + 1) e"
      "hasNewlines r \<longleftrightarrow> containsNewlines (content r)"
    unfolding spanBefore_def by blast
  have ordered: "isBefore (positionAt document s) (positionAt document (e + 1))"
    using se(1,2) by (intro positionAt_mono) auto
  have cut: "content r = take (e - (s + 1)) (drop (s + 1) (getText document))"
    using se(1,8) by (simp add: substring_def)
  have "s < e \<and> e < length (getText document)
              \<and> getText document ! s = DQ \<and> getText document ! e = DQ
              \<and> literalAt (getText document) s e
              \<and> start r = positionAt document s \<and> end' r = positionAt document (e + 1)
              \<and> content r = take (e - (s + 1)) (drop (s + 1) (getText document))"
    using se(1-7) cut by simp
  then have "\<exists>s e. s < e \<and> e < length (getText document)
              \<and> getText document ! s = DQ \<and> getText document ! e = DQ
              \<and> literalAt (getText document) s e
              \<and> start r = positionAt document s \<and> end' r = positionAt document (e + 1)
              \<and> content r = take (e - (s + 1)) (drop (s + 1) (getText document))"
    by blast
  then show "isBefore (start r) (end' r)
     \<and> (\<exists>s e. s < e \<and> e < length (getText document)
              \<and> getText document ! s = DQ \<and> getText document ! e = DQ
              \<and> literalAt (getText document) s e
              \<and> start r = positionAt document s \<and> end' r = positionAt document (e + 1)
              \<and> content r = take (e - (s + 1)) (drop (s + 1) (getText document)))
     \<and> (hasNewlines r \<longleftrightarrow> findNewlineEscapeSequences (content r) \<noteq> [])"
    using ordered se(6,7,9) by (simp add: containsNewlines_def)
qed

text \<open>
  In the scenario document the range of the string value is well formed. In the document
  \<^verbatim>\<open>["a\"b"]\<close> the scanner returns the one range from the opening quote (offset 1) to one
  past the closing quote (offset 6), with the escaped quote in its content; the quotes at
  1 and 6 delimit a literal, the quotes at 1 and 4 (the quote of the escape) do not.
\<close>

theorem C8_span_wellformed_witness:
  "scenarioSpan \<in> set (stringRanges (parseJsonSafely scenarioDoc))
   \<and> isBefore (start scenarioSpan) (end' scenarioSpan)
   \<and> hasNewlines scenarioSpan
   \<and> findNewlineEscapeSequences (content scenarioSpan) \<noteq> []
   \<and> stringRanges (parseJsonSafely quoteDoc) = [quoteSpan]
   \<and> (\<exists>s e. s < e \<and> e < length (getText quoteDoc)
          \<and> getText quoteDoc ! s = DQ \<and> getText quoteDoc ! e = DQ
          \<and> literalAt (getText quoteDoc) s e
          \<and> start quoteSpan = positionAt quoteDoc s \<and> end' quoteSpan = positionAt quoteDoc (e + 1)
          \<and> content quoteSpan = take (e - (s + 1)) (drop (s + 1) (getText quoteDoc)))
   \<and> literalAt (getText quoteDoc) 1 6
   \<and> \<not> literalAt (getText quoteDoc) 1 4
   \<and> getText quoteDoc ! 4 = DQ"
proof -
  have m: "scenarioSpan \<in> set (stringRanges (parseJsonSafely scenarioDoc))"
    by (simp add: scenario_parse)
  have h: "hasNewlines scenarioSpan" by (simp add: scenarioSpan_def)
  have q: "stringRanges (parseJsonSafely quoteDoc) = [quoteSpan]"
    by (simp add: quoteDoc_def quoteSpan_def scan_defs)
  have lit: "literalAt (getText quoteDoc) 1 6" "\<not> literalAt (getText quoteDoc) 1 4"
    "getText quoteDoc ! 4 = DQ"
    by code_simp+
  from C8_span_wellformed [of scenarioDoc] m h
  have "isBefore (start scenarioSpan) (end' scenarioSpan)
        \<and> findNewlineEscapeSequences (content scenarioSpan) \<noteq> []" by blast
  moreover from C8_span_wellformed [of quoteDoc] q
  have "\<exists>s e. s < e \<and> e < length (getText quoteDoc)
          \<and> getText quoteDoc ! s = DQ \<and> getText quoteDoc ! e = DQ
          \<and> literalAt (getText quoteDoc) s e
          \<and> start quoteSpan = positionAt quoteDoc s \<and> end' quoteSpan = positionAt quoteDoc (e + 1)
          \<and> content quoteSpan = take (e - (s + 1)) (drop (s + 1) (getText quoteDoc))"
    by simp
  ultimately show ?thesis using m h q lit by simp
qed

text \<open>
  C9. While the processing flag is set the change handler returns at once: the
  synchronizer is unchanged and no edit is submitted. The flag is set whenever
  \<^verbatim>\<open>convertLineBreaksToEscapeSequences\<close> submits an edit, and the continuation of
  \<^verbatim>\<open>applyEdit\<close> clears it. The text of a counter-edit holds no line feed, so it cannot
  meet the condition of the conversion rule again.
\<close>

theorem C9_reentrancy_guard:
  "(isProcessingEdit es \<longrightarrow> onDidChangeTextDocument activeEditor event es = (es, []))
   \<and> (snd (convertLineBreaksToEscapeSequences document change es) \<noteq> [] \<longrightarrow>
        isProcessingEdit (fst (convertLineBreaksToEscapeSequences document change es)))
   \<and> \<not> isProcessingEdit (applyEditCompleted activeEditor document es)
   \<and> snd (handleDecoratedAreaEdit document (ContentChange r (replaceLineBreaks newText)) es) = []"
proof (intro conjI impI)
  assume "isProcessingEdit es"
  then show "onDidChangeTextDocument activeEditor event es = (es, [])"
    by (simp add: onDidChangeTextDocument_def)
next
  assume "snd (convertLineBreaksToEscapeSequences document change es) \<noteq> []"
  then show "isProcessingEdit (fst (convertLineBreaksToEscapeSequences document change es))"
    by (simp add: convertLineBreaksToEscapeSequences_def Let_def split: if_splits)
next
  show "\<not> isProcessingEdit (applyEditCompleted activeEditor document es)"
    by (simp add: applyEditCompleted_def Let_def)
next
  show "snd (handleDecoratedAreaEdit document (ContentChange r (replaceLineBreaks newText)) es)
        = []"
    by (simp add: handleDecoratedAreaEdit_def Let_def replaceLineBreaks_no_LF
          split: option.splits)
qed

theorem C9_reentrancy_guard_witness:
  "isProcessingEdit (fst (onDidChangeTextDocument (Some scenarioDoc) (enterAt 8)
                            decoratedSynchronizer))
   \<and> onDidChangeTextDocument (Some scenarioDoc) (enterAt 8)
        (fst (onDidChangeTextDocument (Some scenarioDoc) (enterAt 8) decoratedSynchronizer))
      = (fst (onDidChangeTextDocument (Some scenarioDoc) (enterAt 8) decoratedSynchronizer), [])"
proof -
  let ?es = "fst (onDidChangeTextDocument (Some scenarioDoc) (enterAt 8) decoratedSynchronizer)"
  have "snd (processContentChanges scenarioDoc
               [ContentChange (Range (Position 0 8) (Position 0 8)) [LF]]
               (ensureDocumentState scenarioDoc decoratedSynchronizer)) \<noteq> []
        \<and> isProcessingEdit (fst (processContentChanges scenarioDoc
               [ContentChange (Range (Position 0 8) (Position 0 8)) [LF]]
               (ensureDocumentState scenarioDoc decoratedSynchronizer)))"
    by (simp add: processContentChange_def handleDecoratedAreaEdit_def Let_def scenario_at
          decorated_manager getDecorationsInRange_def intersection_def isBefore_def isAfter_def
          includesEscapePair_def convertLineBreaksToEscapeSequences_def
          transformVisualContentToActual_def)
  then have set: "isProcessingEdit ?es"
    using handler_open(2) [of decoratedSynchronizer scenarioDoc "Some scenarioDoc"]
    by (simp add: enterAt_def scenario_json scenario_parse decoratedSynchronizer_def
          freshSynchronizer_def)
  with C9_reentrancy_guard [of ?es "Some scenarioDoc" "enterAt 8"] show ?thesis by blast
qed

text \<open>
  C10. \<^verbatim>\<open>getStringRangeAtPosition\<close> returns a range exactly when the position lies in the
  half-open interval from \<open>start\<close> (included) to \<open>end'\<close> (excluded) of one of the
  scanned ranges, and then it returns that range. For each scanned range, with its quotes
  at the offsets \<open>s\<close> and \<open>e\<close>: at the position of the opening quote and at the
  position of the closing quote the range itself is returned, and at the position one
  past the closing quote nothing is.
\<close>

theorem C10_half_open_membership:
  "(getStringRangeAtPosition document p \<noteq> None \<longleftrightarrow>
      (\<exists>r \<in> set (stringRanges (parseJsonSafely document)).
         isAfterOrEqual p (start r) \<and> isBefore p (end' r)))
   \<and> (\<forall>r \<in> set (stringRanges (parseJsonSafely document)).
        (isAfterOrEqual p (start r) \<and> isBefore p (end' r) \<longrightarrow>
           getStringRangeAtPosition document p = Some r)
        \<and> (\<exists>s e. s < e \<and> e < length (getText document)
             \<and> getText document ! s = DQ \<and> getText document ! e = DQ
             \<and> start r = positionAt document s \<and> end' r = positionAt document (e + 1)
             \<and> getStringRangeAtPosition document (positionAt document s) = Some r
             \<and> getStringRangeAtPosition document (positionAt document e) = Some r
             \<and> getStringRangeAtPosition document (positionAt document (e + 1)) = None))"
proof (intro conjI ballI impI)
  show "getStringRangeAtPosition document p \<noteq> None \<longleftrightarrow>
      (\<exists>r \<in> set (stringRanges (parseJsonSafely document)).
         isAfterOrEqual p (start r) \<and> isBefore p (end' r))"
  proof (cases "isValid (parseJsonSafely document)")
    case True
    then show ?thesis
      by (auto simp: getStringRangeAtPosition_def find_None_iff isPositionInRange_def)
  next
    case False
    then have "stringRanges (parseJsonSafely document) = []"
      by (simp add: parseJsonSafely_def Let_def split: if_splits)
    with False show ?thesis by (simp add: getStringRangeAtPosition_def)
  qed
next
  fix r
  assume r: "r \<in> set (stringRanges (parseJsonSafely document))"
    and "isAfterOrEqual p (start r) \<and> isBefore p (end' r)"
  then have "isPositionInRange p r" by (simp add: isPositionInRange_def)
  with r show "getStringRangeAtPosition document p = Some r" by (rule inside_returns_span)
next
  fix r
  assume r: "r \<in> set (stringRanges (parseJsonSafely document))"
  from parse_spans [OF r] obtain s e where
    se: "s < e" "e < length (getText document)"
      "getText document ! s = DQ" "getText document ! e = DQ"
      "start r = positionAt document s" "end' r = positionAt document (e + 1)"
    by blast
  have before_end: "isBefore (positionAt document s) (end' r)"
    "isBefore (positionAt document e) (end' r)"
    using se by (auto intro!: positionAt_mono)
  have after_start: "isAfterOrEqual (positionAt document s) (start r)"
    "isAfterOrEqual (positionAt document e) (start r)"
    using se by (auto intro!: positionAt_le)
  have inside: "isPositionInRange (positionAt document s) r"
    "isPositionInRange (positionAt document e) r"
    using before_end after_start by (simp_all add: isPositionInRange_def)
  have found: "getStringRangeAtPosition document (positionAt document s) = Some r"
    "getStringRangeAtPosition document (positionAt document e) = Some r"
    using r inside by (auto intro: inside_returns_span)
  have out: "getStringRangeAtPosition document (positionAt document (e + 1)) = None"
    using valid_spans(2) [of document] r se(6) by auto
  show "\<exists>s e. s < e \<and> e < length (getText document)
             \<and> getText document ! s = DQ \<and> getText document ! e = DQ
             \<and> start r = positionAt document s \<and> end' r = positionAt document (e + 1)
             \<and> getStringRangeAtPosition document (positionAt document s) = Some r
             \<and> getStringRangeAtPosition document (positionAt document e) = Some r
             \<and> getStringRangeAtPosition document (positionAt document (e + 1)) = None"
    using se found out by blast
qed

theorem C10_half_open_membership_witness:
  "getStringRangeAtPosition scenarioDoc (Position 0 6) = Some scenarioSpan
   \<and> getStringRangeAtPosition scenarioDoc (Position 0 11) = Some scenarioSpan
   \<and> getStringRangeAtPosition scenarioDoc (Position 0 12) = None"
proof -
  have in6: "isAfterOrEqual (Position 0 6) (start scenarioSpan) \<and> isBefore (Position 0 6) (end' scenarioSpan)"
    and in11: "isAfterOrEqual (Position 0 11) (start scenarioSpan) \<and> isBefore (Position 0 11) (end' scenarioSpan)"
    by (simp_all add: scenarioSpan_def isAfterOrEqual_def isBefore_def)
  have m: "scenarioSpan \<in> set (stringRanges (parseJsonSafely scenarioDoc))"
    by (simp add: scenario_parse)
  have "getStringRangeAtPosition scenarioDoc (Position 0 6) = Some scenarioSpan"
    using C10_half_open_membership [of scenarioDoc "Position 0 6"] m in6 by blast
  moreover have "getStringRangeAtPosition scenarioDoc (Position 0 11) = Some scenarioSpan"
    using C10_half_open_membership [of scenarioDoc "Position 0 11"] m in11 by blast
  moreover have "getStringRangeAtPosition scenarioDoc (Position 0 12) = None"
    using C10_half_open_membership [of scenarioDoc "Position 0 12"]
    by (simp add: scenario_parse scenarioSpan_def isAfterOrEqual_def isBefore_def)
  ultimately show ?thesis by simp
qed

end
